theory Spec2Isabelle
  imports Main
begin

section \<open>JavaScript values used by the background worker\<close>

text \<open>
  The model follows the service worker of version 2.6.0 (the file whose header reads
  \<^verbatim>\<open>v2.6.0\<close>). A JavaScript string is its sequence of UTF-16 code units; every
  regular expression of the source is written without the \<^verbatim>\<open>u\<close> flag, so it
  works on code units too. A value that may be \<^verbatim>\<open>null\<close> or \<^verbatim>\<open>undefined\<close>
  is an \<open>option\<close>.
\<close>

type_synonym jsstring = "nat list"

definition ascii :: "string \<Rightarrow> jsstring" where
  "ascii s = map of_char s"

text \<open>
  The numbers that occur: integers (exactly representable doubles), \<^verbatim>\<open>Infinity\<close>
  (from \<^verbatim>\<open>parseInt\<close> of a very long digit string) and \<^verbatim>\<open>NaN\<close>.
\<close>

datatype jsnumber = Num int | Infinity | NaN

fun jsGreater :: "jsnumber \<Rightarrow> jsnumber \<Rightarrow> bool" where
  "jsGreater (Num a) (Num b) = (b < a)"
| "jsGreater Infinity (Num b) = True"
| "jsGreater _ _ = False"

fun jsGreaterEq :: "jsnumber \<Rightarrow> jsnumber \<Rightarrow> bool" where
  "jsGreaterEq (Num a) (Num b) = (b \<le> a)"
| "jsGreaterEq Infinity (Num b) = True"
| "jsGreaterEq Infinity Infinity = True"
| "jsGreaterEq _ _ = False"

subsection \<open>Character classes\<close>

text \<open>\<^verbatim>\<open>\s\<close> and the characters removed by \<^verbatim>\<open>trim()\<close>: white space and line terminators.\<close>

definition isSpace :: "nat \<Rightarrow> bool" where
  "isSpace c = (c \<in> set [9, 10, 11, 12, 13, 32, 0xA0, 0x1680, 0x2028, 0x2029, 0x202F,
                          0x205F, 0x3000, 0xFEFF] \<or> (0x2000 \<le> c \<and> c \<le> 0x200A))"

text \<open>What \<^verbatim>\<open>.\<close> does not match.\<close>

definition isLineTerminator :: "nat \<Rightarrow> bool" where
  "isLineTerminator c = (c \<in> set [10, 13, 0x2028, 0x2029])"

text \<open>\<^verbatim>\<open>\d\<close> and \<^verbatim>\<open>[0-9]\<close>.\<close>

definition isDigit :: "nat \<Rightarrow> bool" where
  "isDigit c = (48 \<le> c \<and> c \<le> 57)"

text \<open>
  Case-insensitive matching without the \<^verbatim>\<open>u\<close> flag compares canonicalised code
  units. Every pattern character of the source is ASCII, and a non-ASCII code unit is
  never canonicalised to an ASCII one, so only the ASCII letters are folded.
\<close>

definition canonicalize :: "nat \<Rightarrow> nat" where
  "canonicalize c = (if 97 \<le> c \<and> c \<le> 122 then c - 32 else c)"

definition ciPrefix :: "jsstring \<Rightarrow> jsstring \<Rightarrow> bool" where
  "ciPrefix pat s = (length pat \<le> length s \<and>
                     map canonicalize (take (length pat) s) = map canonicalize pat)"

definition startsWith :: "jsstring \<Rightarrow> jsstring \<Rightarrow> bool" where
  "startsWith pat s = (take (length pat) s = pat)"

subsection \<open>String methods\<close>

definition trim :: "jsstring \<Rightarrow> jsstring" where
  "trim s = rev (dropWhile isSpace (rev (dropWhile isSpace s)))"

text \<open>\<^verbatim>\<open>s.includes(t)\<close>: \<open>t\<close> occurs in \<open>s\<close> as a contiguous substring.\<close>

fun jsIncludes :: "jsstring \<Rightarrow> jsstring \<Rightarrow> bool" where
  "jsIncludes [] t = (t = [])"
| "jsIncludes (c # cs) t = (startsWith t (c # cs) \<or> jsIncludes cs t)"

text \<open>
  A regular expression is modelled by its matcher at one start position: given the rest
  of the input from there, the matcher says whether the expression matches and with what
  result. A search tries the start positions from left to right, the end of the input
  included.
\<close>

text \<open>\<^verbatim>\<open>s.match(re)\<close> for a non-global expression: the leftmost match.\<close>

fun firstMatch :: "(jsstring \<Rightarrow> 'a option) \<Rightarrow> jsstring \<Rightarrow> 'a option" where
  "firstMatch m [] = m []"
| "firstMatch m (c # cs) = (case m (c # cs) of Some r \<Rightarrow> Some r | None \<Rightarrow> firstMatch m cs)"

text \<open>
  \<^verbatim>\<open>s.replace(re, rep)\<close> for a non-global expression; the matcher gives the length of the
  match.
\<close>

fun replaceFirst :: "(jsstring \<Rightarrow> nat option) \<Rightarrow> jsstring \<Rightarrow> jsstring \<Rightarrow> jsstring" where
  "replaceFirst m rep [] = (case m [] of Some n \<Rightarrow> rep | None \<Rightarrow> [])"
| "replaceFirst m rep (c # cs) =
     (case m (c # cs) of Some n \<Rightarrow> rep @ drop n (c # cs) | None \<Rightarrow> c # replaceFirst m rep cs)"

text \<open>
  \<^verbatim>\<open>s.matchAll(re)\<close> for a global expression with one capture group: the captures of the
  successive matches; the matcher gives the capture and the length of the match, and the
  search resumes behind the match (one position further after an empty match).
\<close>

fun matchAll :: "(jsstring \<Rightarrow> (jsstring \<times> nat) option) \<Rightarrow> jsstring \<Rightarrow> jsstring list" where
  "matchAll m [] = (case m [] of Some (cap, n) \<Rightarrow> [cap] | None \<Rightarrow> [])"
| "matchAll m (c # cs) =
     (case m (c # cs) of Some (cap, n) \<Rightarrow> cap # matchAll m (drop (n - 1) cs)
      | None \<Rightarrow> matchAll m cs)"

subsection \<open>Numbers\<close>

fun bitLength :: "nat \<Rightarrow> nat" where
  "bitLength n = (if n = 0 then 0 else Suc (bitLength (n div 2)))"

declare bitLength.simps [simp del]

text \<open>The integer nearest to \<open>a / b\<close>, ties to the even one (\<open>b > 0\<close>).\<close>

definition roundQuotient :: "nat \<Rightarrow> nat \<Rightarrow> nat" where
  "roundQuotient a b =
     (let q = a div b; r = a mod b
      in if 2 * r < b then q else if b < 2 * r then q + 1 else if even q then q else q + 1)"

text \<open>
  The double nearest to \<open>a / b\<close> (round to nearest, ties to even) for \<open>a, b > 0\<close>, as a
  pair \<open>(m, e)\<close> of value \<open>m * 2 ^ e\<close> with a 53-bit significand \<open>m\<close>. The operands that
  occur are string lengths, their products with 70 and digit strings, all far from the
  subnormal range, which is therefore not modelled.
\<close>

definition toDouble :: "nat \<Rightarrow> nat \<Rightarrow> nat \<times> int" where
  "toDouble a b =
     (let k = int (bitLength a) - int (bitLength b);
          l = (if (if 0 \<le> k then b * 2 ^ nat k \<le> a else b \<le> a * 2 ^ nat (- k))
               then k else k - 1);
          e = l - 52
      in (if 0 \<le> e then roundQuotient a (b * 2 ^ nat e)
          else roundQuotient (a * 2 ^ nat (- e)) b, e))"

text \<open>\<^verbatim>\<open>x * 70\<close> for a positive double \<open>x = m * 2 ^ e\<close>.\<close>

definition times70 :: "nat \<times> int \<Rightarrow> nat \<times> int" where
  "times70 x = (case x of (m, e) \<Rightarrow>
     if 0 \<le> e then toDouble (70 * m * 2 ^ nat e) 1 else toDouble (70 * m) (2 ^ nat (- e)))"

text \<open>\<^verbatim>\<open>Math.round(x)\<close> for a positive double: the nearest integer, ties upwards.\<close>

definition mathRound :: "nat \<times> int \<Rightarrow> int" where
  "mathRound x = (case x of (m, e) \<Rightarrow>
     if 0 \<le> e then int (m * 2 ^ nat e)
     else int ((2 * m + 2 ^ nat (- e)) div (2 * 2 ^ nat (- e))))"

text \<open>The Number value of a non-negative integer given by its decimal digits.\<close>

definition numberOfNat :: "nat \<Rightarrow> jsnumber" where
  "numberOfNat v =
     (if v < 2 ^ 53 then Num (int v)
      else (case toDouble v 1 of (m, e) \<Rightarrow>
              if 2 ^ 1024 \<le> m * 2 ^ nat e then Infinity else Num (int (m * 2 ^ nat e))))"

definition digitsValue :: "jsstring \<Rightarrow> nat" where
  "digitsValue ds = foldl (\<lambda>a c. 10 * a + (c - 48)) 0 ds"

text \<open>
  \<^verbatim>\<open>parseInt(s, 10)\<close>: leading white space, an optional sign, then the longest prefix
  of decimal digits; \<^verbatim>\<open>NaN\<close> when there is none. The calls without a radix are made
  on strings of digits and kanji only, where the radix is 10 as well.
\<close>

definition parseInt :: "jsstring \<Rightarrow> jsnumber" where
  "parseInt s =
     (let r = dropWhile isSpace s;
          neg = (r \<noteq> [] \<and> hd r = 45);
          r' = (if r \<noteq> [] \<and> (hd r = 45 \<or> hd r = 43) then tl r else r);
          ds = takeWhile isDigit r'
      in if ds = [] then NaN
         else (case numberOfNat (digitsValue ds) of
                 Num v \<Rightarrow> if neg then Num (- v) else Num v
               | other \<Rightarrow> other))"

section \<open>String matching functions\<close>

text \<open>\<^verbatim>\<open>/\s*\|\s*Hitomi\.la.*$/i\<close> at one start position; the match runs to the end.\<close>

definition hitomiSuffixAt :: "jsstring \<Rightarrow> nat option" where
  "hitomiSuffixAt s =
     (case dropWhile isSpace s of
        [] \<Rightarrow> None
      | c # r \<Rightarrow>
          (let r' = dropWhile isSpace r
           in if c = 124 \<and> ciPrefix (ascii ''Hitomi.la'') r'
                 \<and> \<not> list_ex isLineTerminator (drop 9 r')
              then Some (length s) else None))"

definition cleanTitle :: "jsstring option \<Rightarrow> jsstring" where
  "cleanTitle title =
     (case title of
        None \<Rightarrow> []
      | Some t \<Rightarrow> if t = [] then [] else trim (replaceFirst hitomiSuffixAt [] t))"

text \<open>\<^verbatim>\<open>/\.zip$/i\<close> at one start position.\<close>

definition zipSuffixAt :: "jsstring \<Rightarrow> nat option" where
  "zipSuffixAt s = (if map canonicalize s = map canonicalize (ascii ''.zip'') then Some 4 else None)"

text \<open>The last element of \<^verbatim>\<open>filepath.split(/[\\\/]/)\<close>.\<close>

definition lastSegment :: "jsstring \<Rightarrow> jsstring" where
  "lastSegment s = rev (takeWhile (\<lambda>c. c \<noteq> 92 \<and> c \<noteq> 47) (rev s))"

definition cleanFilename :: "jsstring \<Rightarrow> jsstring" where
  "cleanFilename filepath =
     (if filepath = [] then []
      else (let seg = lastSegment filepath;
                filename = (if seg = [] then filepath else seg)
            in trim (replaceFirst zipSuffixAt [] filename)))"

text \<open>\<^verbatim>\<open>/-(\d+)\.html/\<close> at one start position, with its capture.\<close>

definition galleryIdAt :: "jsstring \<Rightarrow> jsstring option" where
  "galleryIdAt s =
     (case s of
        [] \<Rightarrow> None
      | c # r \<Rightarrow>
          (let d = takeWhile isDigit r
           in if c = 45 \<and> d \<noteq> [] \<and> startsWith (ascii ''.html'') (dropWhile isDigit r)
              then Some d else None))"

definition extractGalleryId :: "jsstring option \<Rightarrow> jsstring option" where
  "extractGalleryId url =
     (case url of None \<Rightarrow> None | Some u \<Rightarrow> if u = [] then None else firstMatch galleryIdAt u)"

text \<open>
  \<^verbatim>\<open>normalizeNumber\<close>: full-width digits and kanji numerals are rewritten one character
  at a time (\<^verbatim>\<open>for (const char of str)\<close>; the characters concerned are single code
  units), anything else is kept, and the result goes through \<^verbatim>\<open>parseInt(result) || 0\<close>.
\<close>

definition zenToHan :: "nat \<Rightarrow> jsstring option" where
  "zenToHan c = (if 0xFF10 \<le> c \<and> c \<le> 0xFF19 then Some [48 + (c - 0xFF10)] else None)"

definition kanjiToNum :: "nat \<Rightarrow> jsstring option" where
  "kanjiToNum c =
     (if c = 0x4E00 then Some (ascii ''1'') else if c = 0x4E8C then Some (ascii ''2'')
      else if c = 0x4E09 then Some (ascii ''3'') else if c = 0x56DB then Some (ascii ''4'')
      else if c = 0x4E94 then Some (ascii ''5'') else if c = 0x516D then Some (ascii ''6'')
      else if c = 0x4E03 then Some (ascii ''7'') else if c = 0x516B then Some (ascii ''8'')
      else if c = 0x4E5D then Some (ascii ''9'') else if c = 0x5341 then Some (ascii ''10'')
      else None)"

definition normalizeNumber :: "jsstring \<Rightarrow> jsnumber" where
  "normalizeNumber str =
     (if str \<noteq> [] \<and> list_all isDigit str then parseInt str
      else (let result = concat (map (\<lambda>c. case zenToHan c of Some d \<Rightarrow> d
                                            | None \<Rightarrow> (case kanjiToNum c of Some d \<Rightarrow> d
                                                       | None \<Rightarrow> [c])) str)
            in case parseInt result of NaN \<Rightarrow> Num 0 | n \<Rightarrow> n))"

text \<open>
  The first pattern of \<^verbatim>\<open>extractEpisodeNumbers\<close>: the ordinal prefix U+7B2C, then one or
  more characters of a class (ASCII digits, the full-width digits U+FF10 to U+FF19, the
  kanji numerals one to ten, and U+767E for hundred), then one of five counter characters
  (U+8A71, U+5DFB, U+7AE0, U+90E8, U+7DE8).
\<close>

definition isJapaneseNumeral :: "nat \<Rightarrow> bool" where
  "isJapaneseNumeral c =
     (isDigit c \<or> (0xFF10 \<le> c \<and> c \<le> 0xFF19)
      \<or> c \<in> set [0x4E00, 0x4E8C, 0x4E09, 0x56DB, 0x4E94, 0x516D, 0x4E03, 0x516B, 0x4E5D,
                   0x5341, 0x767E])"

definition isCounter :: "nat \<Rightarrow> bool" where
  "isCounter c = (c \<in> set [0x8A71, 0x5DFB, 0x7AE0, 0x90E8, 0x7DE8])"

definition japanesePatternAt :: "jsstring \<Rightarrow> (jsstring \<times> nat) option" where
  "japanesePatternAt s =
     (case s of
        [] \<Rightarrow> None
      | c # r \<Rightarrow>
          (let run = takeWhile isJapaneseNumeral r
           in case dropWhile isJapaneseNumeral r of
                [] \<Rightarrow> None
              | x # _ \<Rightarrow> if c = 0x7B2C \<and> run \<noteq> [] \<and> isCounter x
                         then Some (run, length run + 2) else None))"

text \<open>
  \<^verbatim>\<open>/(?:Vol\.?|Part|Episode|Ep\.?|Ch\.?|Chapter)\s*([0-9]+)/gi\<close>: the alternatives are tried
  in order, an optional dot first with the dot, and the first one behind which white
  space and a digit follow gives the match.
\<close>

definition englishKeywords :: "jsstring list" where
  "englishKeywords = map ascii [''Vol.'', ''Vol'', ''Part'', ''Episode'', ''Ep.'', ''Ep'',
                                ''Ch.'', ''Ch'', ''Chapter'']"

fun englishPatternFrom :: "jsstring list \<Rightarrow> jsstring \<Rightarrow> (jsstring \<times> nat) option" where
  "englishPatternFrom [] s = None"
| "englishPatternFrom (k # ks) s =
     (let r = dropWhile isSpace (drop (length k) s);
          d = takeWhile isDigit r
      in if ciPrefix k s \<and> d \<noteq> []
         then Some (d, length s - length (dropWhile isDigit r))
         else englishPatternFrom ks s)"

definition englishPatternAt :: "jsstring \<Rightarrow> (jsstring \<times> nat) option" where
  "englishPatternAt s = englishPatternFrom englishKeywords s"

text \<open>\<^verbatim>\<open>/\s*(\d+)\s*$/\<close> at one start position, with its capture.\<close>

definition trailingNumberAt :: "jsstring \<Rightarrow> jsstring option" where
  "trailingNumberAt s =
     (let r = dropWhile isSpace s;
          d = takeWhile isDigit r
      in if d \<noteq> [] \<and> list_all isSpace (dropWhile isDigit r) then Some d else None)"

text \<open>
  The last pattern, at one start position: an opening bracket (ASCII round or square,
  U+FF08, U+3010), digits, a closing bracket (ASCII round or square, U+FF09, U+3011).
\<close>

definition isOpenBracket :: "nat \<Rightarrow> bool" where
  "isOpenBracket c = (c \<in> set [40, 91, 0xFF08, 0x3010])"

definition isCloseBracket :: "nat \<Rightarrow> bool" where
  "isCloseBracket c = (c \<in> set [41, 93, 0xFF09, 0x3011])"

definition bracketNumberAt :: "jsstring \<Rightarrow> (jsstring \<times> nat) option" where
  "bracketNumberAt s =
     (case s of
        [] \<Rightarrow> None
      | c # r \<Rightarrow>
          (let d = takeWhile isDigit r
           in case dropWhile isDigit r of
                [] \<Rightarrow> None
              | x # _ \<Rightarrow> if isOpenBracket c \<and> d \<noteq> [] \<and> isCloseBracket x
                         then Some (d, length d + 2) else None))"

text \<open>\<^verbatim>\<open>[...new Set(numbers)]\<close>: the first occurrence of every value, in order.\<close>

fun dedupe :: "'a list \<Rightarrow> 'a list" where
  "dedupe [] = []"
| "dedupe (x # xs) = x # dedupe (filter (\<lambda>y. y \<noteq> x) xs)"

definition extractEpisodeNumbers :: "jsstring \<Rightarrow> jsnumber list" where
  "extractEpisodeNumbers str =
     (if str = [] then []
      else dedupe
             (map normalizeNumber (matchAll japanesePatternAt str)
              @ map parseInt (matchAll englishPatternAt str)
              @ (case firstMatch trailingNumberAt str of Some d \<Rightarrow> [parseInt d] | None \<Rightarrow> [])
              @ map parseInt (matchAll bracketNumberAt str)))"

text \<open>
  \<^verbatim>\<open>normalizeForComparison\<close>. \<^verbatim>\<open>String.prototype.toLowerCase\<close> follows the Unicode
  case tables of the runtime, which are not part of the repository: it is the parameter
  \<open>toLowerCase\<close> of every function that normalises.
\<close>

definition isDecoration :: "nat \<Rightarrow> bool" where
  "isDecoration c =
     (c \<in> set [0x300C, 0x300D, 0x300E, 0x300F, 0x3010, 0x3011, 91, 93, 40, 41, 0xFF08, 0xFF09,
               123, 125, 60, 62, 0x300A, 0x300B, 0x2661, 0x2665, 0x2605, 0x2606])"

definition isSeparator :: "nat \<Rightarrow> bool" where
  "isSeparator c = (c \<in> set [46, 45, 95, 0xFF5E, 126, 0x2192])"

text \<open>\<^verbatim>\<open>.replace(/\s+/g, ' ')\<close>.\<close>

function collapseSpaces :: "jsstring \<Rightarrow> jsstring" where
  "collapseSpaces [] = []"
| "collapseSpaces (c # cs) =
     (if isSpace c then 32 # collapseSpaces (dropWhile isSpace cs) else c # collapseSpaces cs)"
  by pat_completeness auto
termination
  by (relation "measure length") (auto simp: less_Suc_eq_le length_dropWhile_le)

definition normalizeForComparison :: "(jsstring \<Rightarrow> jsstring) \<Rightarrow> jsstring \<Rightarrow> jsstring" where
  "normalizeForComparison toLowerCase str =
     (if str = [] then []
      else trim (collapseSpaces
                   (map (\<lambda>c. if isSeparator c then 32 else c)
                      (filter (\<lambda>c. \<not> isDecoration c) (toLowerCase str)))))"

text \<open>\<^verbatim>\<open>getBigrams\<close>: the substrings of length two, in order.\<close>

fun getBigrams :: "jsstring \<Rightarrow> jsstring list" where
  "getBigrams (a # b # r) = [a, b] # getBigrams (b # r)"
| "getBigrams _ = []"

text \<open>
  Step 7 of \<^verbatim>\<open>calculateMatchScore\<close>: \<^verbatim>\<open>Math.round(similarity * 70)\<close> with
  \<^verbatim>\<open>similarity = (2 * intersection) / (bigrams1.length + bigrams2.length)\<close> in double
  arithmetic; \<^verbatim>\<open>0 / 0\<close> is \<^verbatim>\<open>NaN\<close>, and so is everything computed from it.
\<close>

definition similarityScore :: "jsstring \<Rightarrow> jsstring \<Rightarrow> jsnumber" where
  "similarityScore normFilename normTitle =
     (let bigrams1 = getBigrams normFilename;
          bigrams2 = getBigrams normTitle;
          intersection = length (filter (\<lambda>b. b \<in> set bigrams2) bigrams1);
          total = length bigrams1 + length bigrams2
      in if total = 0 then (if intersection = 0 then NaN else Infinity)
         else if intersection = 0 then Num 0
         else Num (mathRound (times70 (toDouble (2 * intersection) total))))"

text \<open>Steps 5 to 7: containment, common prefix, bigram similarity.\<close>

definition similarityRules :: "jsstring \<Rightarrow> jsstring \<Rightarrow> jsnumber" where
  "similarityRules normFilename normTitle =
     (if jsIncludes normFilename normTitle \<or> jsIncludes normTitle normFilename then Num 85
      else (let minLen = min (length normFilename) (length normTitle);
                compareLen = min minLen 25
            in if 5 < compareLen \<and> take compareLen normFilename = take compareLen normTitle
               then Num 80
               else similarityScore normFilename normTitle))"

text \<open>\<^verbatim>\<open>galleryId && (...)\<close>: a gallery id counts when it is a non-empty string.\<close>

definition calculateMatchScore ::
  "(jsstring \<Rightarrow> jsstring) \<Rightarrow> jsstring \<Rightarrow> jsstring option \<Rightarrow> jsstring option \<Rightarrow> jsnumber" where
  "calculateMatchScore toLowerCase filename tabTitle galleryId =
     (let cleanedFilename = cleanFilename filename;
          cleanedTitle = cleanTitle tabTitle
      in if (case galleryId of None \<Rightarrow> False
             | Some g \<Rightarrow> g \<noteq> [] \<and> (jsIncludes filename g \<or> jsIncludes cleanedFilename g))
         then Num 100
         else if cleanedFilename = cleanedTitle then Num 100
         else (let normFilename = normalizeForComparison toLowerCase cleanedFilename;
                   normTitle = normalizeForComparison toLowerCase cleanedTitle
               in if normFilename = normTitle then Num 98
                  else (let filenameNums = extractEpisodeNumbers cleanedFilename;
                            titleNums = extractEpisodeNumbers cleanedTitle
                        in if filenameNums \<noteq> [] \<and> titleNums \<noteq> []
                              \<and> \<not> list_ex (\<lambda>n. n \<in> set titleNums) filenameNums
                           then Num 10
                           else similarityRules normFilename normTitle)))"

text \<open>
  On a string of ASCII characters \<^verbatim>\<open>toLowerCase\<close> changes the letters A to Z only. The
  concrete examples below are ASCII strings and are evaluated with this function.
\<close>

definition asciiToLowerCase :: "jsstring \<Rightarrow> jsstring" where
  "asciiToLowerCase s = map (\<lambda>c. if 65 \<le> c \<and> c \<le> 90 then c + 32 else c) s"

section \<open>State management\<close>

text \<open>
  \<^verbatim>\<open>downloadState\<close> is a \<^verbatim>\<open>Map\<close> from tab ids to state objects. A \<^verbatim>\<open>Map\<close> is
  iterated in the order in which its keys were first inserted, and \<^verbatim>\<open>set\<close> on a key
  that is present keeps its place: the model is an association list. The status broadcast
  and the writes to \<^verbatim>\<open>chrome.storage.local\<close> are outputs that the worker does not read
  back while it runs; they are left out. Every handler is one uninterrupted step.
\<close>

datatype status = InProgress | Complete | Error

text \<open>The \<^verbatim>\<open>details\<close> text: a string, or the template \<^verbatim>\<open>`${progress}%`\<close>.\<close>

datatype detailText = Text jsstring | Percent jsnumber

record tabState =
  status :: "status option"
  downloadId :: "nat option"
  details :: "detailText option"
  progress :: "jsnumber option"
  url :: "jsstring option"
  title :: "jsstring option"
  galleryId :: "jsstring option"
  hadProgressBar :: "bool option"
  startTime :: "nat option"

type_synonym registry = "(nat \<times> tabState) list"

definition mapGet :: "(nat \<times> 'v) list \<Rightarrow> nat \<Rightarrow> 'v option" where
  "mapGet m k = map_of m k"

fun mapSet :: "(nat \<times> 'v) list \<Rightarrow> nat \<Rightarrow> 'v \<Rightarrow> (nat \<times> 'v) list" where
  "mapSet [] k v = [(k, v)]"
| "mapSet ((k', v') # m) k v = (if k' = k then (k, v) # m else (k', v') # mapSet m k v)"

definition mapDelete :: "(nat \<times> 'v) list \<Rightarrow> nat \<Rightarrow> (nat \<times> 'v) list" where
  "mapDelete m k = filter (\<lambda>e. fst e \<noteq> k) m"

text \<open>Truthiness of the values tested by the source.\<close>

definition truthyString :: "jsstring option \<Rightarrow> bool" where
  "truthyString s = (case s of None \<Rightarrow> False | Some t \<Rightarrow> t \<noteq> [])"

definition truthyId :: "nat option \<Rightarrow> bool" where
  "truthyId d = (case d of None \<Rightarrow> False | Some n \<Rightarrow> n \<noteq> 0)"

definition truthyBool :: "bool option \<Rightarrow> bool" where
  "truthyBool b = (case b of None \<Rightarrow> False | Some v \<Rightarrow> v)"

text \<open>The object \<^verbatim>\<open>{ downloadId: null, progress: 0 }\<close> and the empty object.\<close>

definition emptyState :: tabState where
  "emptyState = \<lparr>status = None, downloadId = None, details = None, progress = None, url = None,
                  title = None, galleryId = None, hadProgressBar = None, startTime = None\<rparr>"

definition defaultState :: tabState where
  "defaultState = emptyState\<lparr>progress := Some (Num 0)\<rparr>"

definition updateTabState :: "nat \<Rightarrow> status \<Rightarrow> detailText option \<Rightarrow> registry \<Rightarrow> registry" where
  "updateTabState tabId st det ds =
     (let state = (case mapGet ds tabId of Some s \<Rightarrow> s | None \<Rightarrow> defaultState)
      in mapSet ds tabId (state\<lparr>status := Some st, details := det\<rparr>))"

section \<open>Matching a download to a tab\<close>

text \<open>
  The loop of \<^verbatim>\<open>matchDownloadToTab\<close> over the entries of \<^verbatim>\<open>downloadState\<close>, with
  \<^verbatim>\<open>bestMatch\<close> and \<^verbatim>\<open>bestScore\<close> as the accumulator.
\<close>

fun bestCandidate ::
  "(jsstring \<Rightarrow> jsstring) \<Rightarrow> jsstring \<Rightarrow> registry \<Rightarrow> nat option \<times> jsnumber
     \<Rightarrow> nat option \<times> jsnumber" where
  "bestCandidate toLowerCase filename [] best = best"
| "bestCandidate toLowerCase filename ((tabId, state) # rest) best =
     (if status state \<noteq> Some InProgress then bestCandidate toLowerCase filename rest best
      else if truthyId (downloadId state) then bestCandidate toLowerCase filename rest best
      else (let score = calculateMatchScore toLowerCase filename (title state) (galleryId state)
            in if jsGreater score (snd best)
               then bestCandidate toLowerCase filename rest (Some tabId, score)
               else bestCandidate toLowerCase filename rest best))"

text \<open>
  \<^verbatim>\<open>matchDownloadToTab\<close> returns whether it bound the download, together with the new
  registry. The threshold 30 is written in the source as a literal. The best match is a
  key of the registry, so the lookup before the assignment finds it.
\<close>

definition matchDownloadToTab ::
  "(jsstring \<Rightarrow> jsstring) \<Rightarrow> nat \<Rightarrow> jsstring \<Rightarrow> registry \<Rightarrow> bool \<times> registry" where
  "matchDownloadToTab toLowerCase dlId filename ds =
     (case bestCandidate toLowerCase filename ds (None, Num 0) of
        (None, bestScore) \<Rightarrow> (False, ds)
      | (Some bestMatch, bestScore) \<Rightarrow>
          if jsGreaterEq bestScore (Num 30)
          then (case mapGet ds bestMatch of
                  Some state \<Rightarrow> (True, mapSet ds bestMatch (state\<lparr>downloadId := Some dlId\<rparr>))
                | None \<Rightarrow> (False, ds))
          else (False, ds))"

section \<open>Progress polling\<close>

text \<open>
  What \<^verbatim>\<open>getProgressFromPage\<close> reads from the page: the computed \<^verbatim>\<open>display\<close> and the
  \<^verbatim>\<open>aria-valuenow\<close> attribute of the progress bar, when the element exists, and the
  computed \<^verbatim>\<open>display\<close> of the download button, when it exists.
\<close>

record page =
  progressbar :: "(jsstring \<times> jsstring option) option"
  dlButton :: "jsstring option"

datatype pollStatus = downloading | ready | preparing | unknown

definition getProgressFromPage :: "page \<Rightarrow> pollStatus \<times> jsnumber" where
  "getProgressFromPage pg =
     (case (case progressbar pg of
              None \<Rightarrow> None
            | Some (display, valuenow) \<Rightarrow>
                if display \<noteq> ascii ''none''
                then Some (downloading,
                           parseInt (if truthyString valuenow then the valuenow else ascii ''0''))
                else None) of
        Some r \<Rightarrow> r
      | None \<Rightarrow>
          (case dlButton pg of
             None \<Rightarrow> (preparing, Num 100)
           | Some display \<Rightarrow>
               if display \<noteq> ascii ''none'' then (ready, Num 0) else (preparing, Num 100)))"

text \<open>
  The outcome of \<^verbatim>\<open>chrome.scripting.executeScript\<close> in \<^verbatim>\<open>pollTabProgress\<close>: a result
  object with its \<^verbatim>\<open>status\<close> and \<^verbatim>\<open>progress\<close>, no result, or an exception, after which
  \<^verbatim>\<open>chrome.tabs.get\<close> tells whether the tab still exists.
\<close>

datatype pollOutcome = Result pollStatus jsnumber | NoResult | Failed bool

record worker =
  downloadState :: registry
  monitoredTabs :: "nat set"
  unmatchedDownloads :: "nat \<rightharpoonup> jsstring option \<times> jsstring option"

text \<open>An entry of \<^verbatim>\<open>unmatchedDownloads\<close> is the pair of its \<^verbatim>\<open>filename\<close> and \<^verbatim>\<open>url\<close>.\<close>

definition zipPreparing :: jsstring where
  "zipPreparing = ascii ''ZIP'' @ [0x6E96, 0x5099, 0x4E2D] @ ascii ''...''"

definition pollTabProgress :: "nat \<Rightarrow> pollOutcome \<Rightarrow> worker \<Rightarrow> worker" where
  "pollTabProgress tabId outcome w =
     (case outcome of
        Result st prog \<Rightarrow>
          (case mapGet (downloadState w) tabId of
             None \<Rightarrow> w
           | Some currentState \<Rightarrow>
               (let ds1 = mapSet (downloadState w) tabId (currentState\<lparr>progress := Some prog\<rparr>)
                in if st = downloading
                   then (let ds2 = updateTabState tabId InProgress (Some (Percent prog)) ds1
                         in w\<lparr>downloadState :=
                                (case mapGet ds2 tabId of
                                   None \<Rightarrow> ds2
                                 | Some s \<Rightarrow> mapSet ds2 tabId (s\<lparr>hadProgressBar := Some True\<rparr>))\<rparr>)
                   else if st = preparing
                   then (if truthyBool (hadProgressBar currentState)
                            \<and> \<not> truthyId (downloadId currentState)
                         then w\<lparr>downloadState :=
                                  updateTabState tabId InProgress (Some (Text zipPreparing)) ds1\<rparr>
                         else w\<lparr>downloadState := ds1\<rparr>)
                   else w\<lparr>downloadState := ds1\<rparr>))
      | NoResult \<Rightarrow> w
      | Failed tabExists \<Rightarrow>
          if tabExists then w else w\<lparr>monitoredTabs := monitoredTabs w - {tabId}\<rparr>)"

section \<open>Chrome Downloads API\<close>

text \<open>\<^verbatim>\<open>chrome.downloads.onCreated\<close>, with the \<^verbatim>\<open>id\<close>, \<^verbatim>\<open>filename\<close> and \<^verbatim>\<open>url\<close> of the item.\<close>

definition onCreated ::
  "(jsstring \<Rightarrow> jsstring) \<Rightarrow> nat \<Rightarrow> jsstring option \<Rightarrow> jsstring option \<Rightarrow> worker \<Rightarrow> worker" where
  "onCreated toLowerCase dlId fname u w =
     (if truthyString fname
      then (case matchDownloadToTab toLowerCase dlId (the fname) (downloadState w) of
              (matched, ds) \<Rightarrow>
                if matched then w\<lparr>downloadState := ds\<rparr>
                else w\<lparr>downloadState := ds,
                       unmatchedDownloads := (unmatchedDownloads w)(dlId \<mapsto> (fname, u))\<rparr>)
      else w\<lparr>unmatchedDownloads := (unmatchedDownloads w)(dlId \<mapsto> (None, u))\<rparr>)"

text \<open>
  \<^verbatim>\<open>chrome.downloads.onChanged\<close>. The delta carries the download id and, when present,
  \<^verbatim>\<open>filename.current\<close>, \<^verbatim>\<open>state.current\<close> and \<^verbatim>\<open>error.current\<close>. The first half of the
  listener handles a file name that has become known.
\<close>

datatype downloadLifecycle = in_progress | interrupted | complete

definition filenameDetermined ::
  "(jsstring \<Rightarrow> jsstring) \<Rightarrow> nat \<Rightarrow> jsstring option \<Rightarrow> worker \<Rightarrow> worker" where
  "filenameDetermined toLowerCase dlId current w =
     (if truthyString current
      then (case unmatchedDownloads w dlId of
              None \<Rightarrow> w
            | Some (fname, u) \<Rightarrow>
                if truthyString fname then w
                else (case matchDownloadToTab toLowerCase dlId (the current) (downloadState w) of
                        (matched, ds) \<Rightarrow>
                          w\<lparr>downloadState := ds,
                            unmatchedDownloads :=
                              (if matched then (unmatchedDownloads w)(dlId := None)
                               else (unmatchedDownloads w)(dlId \<mapsto> (current, u)))\<rparr>))
      else w)"

text \<open>The first entry of the registry whose \<^verbatim>\<open>downloadId\<close> is the given id.\<close>

definition findBound :: "registry \<Rightarrow> nat \<Rightarrow> nat option" where
  "findBound ds dlId = map_option fst (find (\<lambda>e. downloadId (snd e) = Some dlId) ds)"

definition interruptedText :: jsstring where
  "interruptedText = [0x4E2D, 0x65AD]"

definition stateChanged ::
  "(jsstring \<Rightarrow> jsstring) \<Rightarrow> nat \<Rightarrow> downloadLifecycle option \<Rightarrow> jsstring option
     \<Rightarrow> worker \<Rightarrow> worker" where
  "stateChanged toLowerCase dlId current err w =
     (case findBound (downloadState w) dlId of
        Some tabId \<Rightarrow>
          if current = Some complete
          then w\<lparr>downloadState := updateTabState tabId Complete (Some (Text [])) (downloadState w),
                 monitoredTabs := monitoredTabs w - {tabId},
                 unmatchedDownloads := (unmatchedDownloads w)(dlId := None)\<rparr>
          else if current = Some interrupted
          then w\<lparr>downloadState :=
                   updateTabState tabId Error
                     (Some (Text (if truthyString err then the err else interruptedText)))
                     (downloadState w),
                 monitoredTabs := monitoredTabs w - {tabId},
                 unmatchedDownloads := (unmatchedDownloads w)(dlId := None)\<rparr>
          else w
      | None \<Rightarrow>
          if current = Some complete
          then (case unmatchedDownloads w dlId of
                  None \<Rightarrow> w
                | Some (fname, u) \<Rightarrow>
                    if truthyString fname
                    then (case matchDownloadToTab toLowerCase dlId (the fname) (downloadState w) of
                            (matched, ds) \<Rightarrow>
                              (let w' = (if matched
                                         then (case findBound ds dlId of
                                                 Some tabId \<Rightarrow>
                                                   w\<lparr>downloadState :=
                                                       updateTabState tabId Complete
                                                         (Some (Text [])) ds,
                                                     monitoredTabs := monitoredTabs w - {tabId}\<rparr>
                                               | None \<Rightarrow> w\<lparr>downloadState := ds\<rparr>)
                                         else w\<lparr>downloadState := ds\<rparr>)
                               in w'\<lparr>unmatchedDownloads := (unmatchedDownloads w')(dlId := None)\<rparr>))
                    else w)
          else w)"

text \<open>
  The whole listener: the second half runs when the delta has a \<^verbatim>\<open>state\<close> member, whose
  \<^verbatim>\<open>current\<close> value may be missing.
\<close>

definition onChanged ::
  "(jsstring \<Rightarrow> jsstring) \<Rightarrow> nat \<Rightarrow> jsstring option \<Rightarrow> downloadLifecycle option option
     \<Rightarrow> jsstring option \<Rightarrow> worker \<Rightarrow> worker" where
  "onChanged toLowerCase dlId fname st err w =
     (let w1 = filenameDetermined toLowerCase dlId fname w
      in case st of None \<Rightarrow> w1 | Some current \<Rightarrow> stateChanged toLowerCase dlId current err w1)"

section \<open>Message handler and download handlers\<close>

text \<open>
  \<^verbatim>\<open>handleStartDownloads\<close> and \<^verbatim>\<open>handleRetryDownloads\<close> store a fresh state object for
  the tab; they differ in the \<^verbatim>\<open>details\<close> text only. The tab's \<^verbatim>\<open>url\<close> and \<^verbatim>\<open>title\<close> come
  from \<^verbatim>\<open>chrome.tabs.get\<close>, the start time from \<^verbatim>\<open>Date.now()\<close>.
\<close>

definition processingText :: jsstring where
  "processingText = [0x51E6, 0x7406, 0x4E2D] @ ascii ''...''"

definition startingText :: jsstring where
  "startingText = [0x30C0, 0x30A6, 0x30F3, 0x30ED, 0x30FC, 0x30C9, 0x958B, 0x59CB] @ ascii ''...''"

definition clickedText :: jsstring where
  "clickedText = [0x30DC, 0x30BF, 0x30F3, 0x30AF, 0x30EA, 0x30C3, 0x30AF, 0x5B8C, 0x4E86]"

definition freshState :: "jsstring \<Rightarrow> jsstring option \<Rightarrow> jsstring option \<Rightarrow> nat \<Rightarrow> tabState" where
  "freshState det tabUrl tabTitle now =
     \<lparr>status = Some InProgress, downloadId = None, details = Some (Text det),
      progress = Some (Num 0), url = tabUrl, title = tabTitle,
      galleryId = extractGalleryId tabUrl, hadProgressBar = Some False, startTime = Some now\<rparr>"

definition downloadClicked :: "nat \<Rightarrow> worker \<Rightarrow> worker" where
  "downloadClicked tabId w =
     (let state = (case mapGet (downloadState w) tabId of Some s \<Rightarrow> s | None \<Rightarrow> emptyState);
          ds1 = mapSet (downloadState w) tabId (state\<lparr>hadProgressBar := Some False\<rparr>)
      in w\<lparr>downloadState := updateTabState tabId InProgress (Some (Text clickedText)) ds1,
           monitoredTabs := insert tabId (monitoredTabs w)\<rparr>)"

definition downloadProgress :: "nat \<Rightarrow> jsnumber \<Rightarrow> worker \<Rightarrow> worker" where
  "downloadProgress tabId prog w =
     (let ds1 = (case mapGet (downloadState w) tabId of
                   None \<Rightarrow> downloadState w
                 | Some state \<Rightarrow>
                     mapSet (downloadState w) tabId
                       (state\<lparr>progress := Some prog, hadProgressBar := Some True\<rparr>))
      in w\<lparr>downloadState := updateTabState tabId InProgress (Some (Percent prog)) ds1\<rparr>)"

definition downloadError :: "nat \<Rightarrow> jsstring option \<Rightarrow> worker \<Rightarrow> worker" where
  "downloadError tabId msg w =
     w\<lparr>downloadState := updateTabState tabId Error (map_option Text msg) (downloadState w),
       monitoredTabs := monitoredTabs w - {tabId}\<rparr>"

definition clearCompleted :: "worker \<Rightarrow> worker" where
  "clearCompleted w =
     w\<lparr>downloadState := filter (\<lambda>e. status (snd e) \<noteq> Some Complete) (downloadState w)\<rparr>"

text \<open>
  The events that the worker handles. A start or a retry of one tab is three events, since
  the handler waits between them: the state object is stored, the tab is added to the
  monitored set, or a failure of a browser call is caught and recorded.
\<close>

datatype event =
    DownloadCreated nat "jsstring option" "jsstring option"
  | DownloadChanged nat "jsstring option" "downloadLifecycle option option" "jsstring option"
  | Polled nat pollOutcome
  | TabStarted nat "jsstring option" "jsstring option" nat
  | TabRetried nat "jsstring option" "jsstring option" nat
  | TabMonitored nat
  | TabFailed nat jsstring
  | DownloadClicked nat
  | DownloadProgress nat jsnumber
  | DownloadError nat "jsstring option"
  | ClearCompleted

fun step :: "(jsstring \<Rightarrow> jsstring) \<Rightarrow> event \<Rightarrow> worker \<Rightarrow> worker" where
  "step lc (DownloadCreated dlId fname u) w = onCreated lc dlId fname u w"
| "step lc (DownloadChanged dlId fname st err) w = onChanged lc dlId fname st err w"
| "step lc (Polled tabId outcome) w = pollTabProgress tabId outcome w"
| "step lc (TabStarted tabId u t now) w =
     w\<lparr>downloadState := mapSet (downloadState w) tabId (freshState processingText u t now)\<rparr>"
| "step lc (TabRetried tabId u t now) w =
     w\<lparr>downloadState := mapSet (downloadState w) tabId (freshState startingText u t now)\<rparr>"
| "step lc (TabMonitored tabId) w = w\<lparr>monitoredTabs := insert tabId (monitoredTabs w)\<rparr>"
| "step lc (TabFailed tabId msg) w =
     w\<lparr>downloadState := updateTabState tabId Error (Some (Text msg)) (downloadState w)\<rparr>"
| "step lc (DownloadClicked tabId) w = downloadClicked tabId w"
| "step lc (DownloadProgress tabId prog) w = downloadProgress tabId prog w"
| "step lc (DownloadError tabId msg) w = downloadError tabId msg w"
| "step lc ClearCompleted w = clearCompleted w"

definition initial :: worker where
  "initial = \<lparr>downloadState = [], monitoredTabs = {}, unmatchedDownloads = Map.empty\<rparr>"

text \<open>
  The states the worker reaches from the empty one, together with the ids of the downloads
  created so far. The download subsystem numbers its downloads from 1 and reports every
  download as created once.
\<close>

inductive reachable :: "(jsstring \<Rightarrow> jsstring) \<Rightarrow> nat set \<Rightarrow> worker \<Rightarrow> bool"
  for lc :: "jsstring \<Rightarrow> jsstring" where
  reachable_initial: "reachable lc {} initial"
| reachable_created:
    "reachable lc created w \<Longrightarrow> dlId \<notin> created \<Longrightarrow> dlId \<noteq> 0
       \<Longrightarrow> reachable lc (insert dlId created) (step lc (DownloadCreated dlId fname u) w)"
| reachable_step:
    "reachable lc created w \<Longrightarrow> (\<forall>dlId fname u. e \<noteq> DownloadCreated dlId fname u)
       \<Longrightarrow> reachable lc created (step lc e w)"

text \<open>The events of the download subsystem: the matching and binding steps.\<close>

fun isDownloadEvent :: "event \<Rightarrow> bool" where
  "isDownloadEvent (DownloadCreated dlId fname u) = True"
| "isDownloadEvent (DownloadChanged dlId fname st err) = True"
| "isDownloadEvent _ = False"

section \<open>Notions used in the statements\<close>

text \<open>
  A candidate of the matching loop is an entry whose status is \<^verbatim>\<open>'in-progress'\<close> and whose
  \<^verbatim>\<open>downloadId\<close> is falsy; its score is computed from its title and gallery id.
\<close>

definition isCandidate :: "tabState \<Rightarrow> bool" where
  "isCandidate state = (status state = Some InProgress \<and> \<not> truthyId (downloadId state))"

definition candidates :: "registry \<Rightarrow> registry" where
  "candidates ds = filter (\<lambda>e. isCandidate (snd e)) ds"

definition scoreOf :: "(jsstring \<Rightarrow> jsstring) \<Rightarrow> jsstring \<Rightarrow> tabState \<Rightarrow> jsnumber" where
  "scoreOf toLowerCase filename state =
     calculateMatchScore toLowerCase filename (title state) (galleryId state)"

text \<open>The status and the download id of a tab, when the registry has an entry for it.\<close>

definition statusIn :: "registry \<Rightarrow> nat \<Rightarrow> status option" where
  "statusIn ds tabId = (case mapGet ds tabId of None \<Rightarrow> None | Some s \<Rightarrow> status s)"

definition boundIn :: "registry \<Rightarrow> nat \<Rightarrow> nat option" where
  "boundIn ds tabId = (case mapGet ds tabId of None \<Rightarrow> None | Some s \<Rightarrow> downloadId s)"

definition statusOf :: "worker \<Rightarrow> nat \<Rightarrow> status option" where
  "statusOf w tabId = statusIn (downloadState w) tabId"

definition boundTo :: "worker \<Rightarrow> nat \<Rightarrow> nat option" where
  "boundTo w tabId = boundIn (downloadState w) tabId"

text \<open>\<open>t\<close> occurs in \<open>s\<close> as a contiguous substring.\<close>

definition substringOf :: "jsstring \<Rightarrow> jsstring \<Rightarrow> bool" where
  "substringOf t s = (\<exists>pre post. s = pre @ t @ post)"

text \<open>The invariant of the reachable states.\<close>

definition boundIds :: "registry \<Rightarrow> nat set" where
  "boundIds ds = {d. \<exists>t s. mapGet ds t = Some s \<and> downloadId s = Some d}"

definition bindingInjective :: "registry \<Rightarrow> bool" where
  "bindingInjective ds =
     (\<forall>t1 s1 t2 s2. mapGet ds t1 = Some s1 \<and> mapGet ds t2 = Some s2
        \<and> downloadId s1 \<noteq> None \<and> downloadId s1 = downloadId s2 \<longrightarrow> t1 = t2)"

text \<open>A change of the registry that binds nothing: every binding it leaves was there before.\<close>

definition noNewBinding :: "registry \<Rightarrow> registry \<Rightarrow> bool" where
  "noNewBinding ds ds' =
     (\<forall>t s'. mapGet ds' t = Some s' \<and> downloadId s' \<noteq> None
        \<longrightarrow> (\<exists>s. mapGet ds t = Some s \<and> downloadId s = downloadId s'))"

text \<open>
  What a step may do to the entries that exist: keep a download id that is set, and set one
  only on an entry that is in progress and has none. The stronger form also keeps the
  status.
\<close>

definition bindsOnlyUnbound :: "registry \<Rightarrow> registry \<Rightarrow> bool" where
  "bindsOnlyUnbound ds ds' =
     (\<forall>t s. mapGet ds t = Some s \<longrightarrow>
        (\<exists>s'. mapGet ds' t = Some s'
           \<and> (downloadId s \<noteq> None \<longrightarrow> downloadId s' = downloadId s)
           \<and> (downloadId s' \<noteq> downloadId s
                \<longrightarrow> status s = Some InProgress \<and> downloadId s = None)))"

definition bindsOnlyUnboundKeepingStatus :: "registry \<Rightarrow> registry \<Rightarrow> bool" where
  "bindsOnlyUnboundKeepingStatus ds ds' =
     (\<forall>t s. mapGet ds t = Some s \<longrightarrow>
        (\<exists>s'. mapGet ds' t = Some s' \<and> status s' = status s
           \<and> (downloadId s \<noteq> None \<longrightarrow> downloadId s' = downloadId s)
           \<and> (downloadId s' \<noteq> downloadId s
                \<longrightarrow> status s = Some InProgress \<and> downloadId s = None)))"

definition workerInv :: "nat set \<Rightarrow> worker \<Rightarrow> bool" where
  "workerInv created w =
     (distinct (map fst (downloadState w))
      \<and> bindingInjective (downloadState w)
      \<and> boundIds (downloadState w) \<subseteq> created
      \<and> 0 \<notin> created
      \<and> dom (unmatchedDownloads w) \<subseteq> created
      \<and> (\<forall>d fname u. unmatchedDownloads w d = Some (fname, u) \<and> \<not> truthyString fname
            \<longrightarrow> d \<notin> boundIds (downloadState w)))"

text \<open>
  An example: tab 1 is started and monitored, the download \<^verbatim>\<open>Foo.zip\<close> with id 5 is
  created, and a poll finds the progress bar at 95.
\<close>

definition progressExample :: worker where
  "progressExample =
     step asciiToLowerCase (Polled 1 (Result downloading (Num 95)))
       (step asciiToLowerCase (DownloadCreated 5 (Some (ascii ''Foo.zip'')) None)
          (step asciiToLowerCase (TabMonitored 1)
             (step asciiToLowerCase (TabStarted 1 None (Some (ascii ''Foo | Hitomi.la'')) 100)
                initial)))"

text \<open>
  An example: tab 1 is started, and the download with id 5 is created without a file name.
\<close>

definition parkedExample :: worker where
  "parkedExample =
     step asciiToLowerCase (DownloadCreated 5 None None)
       (step asciiToLowerCase (TabStarted 1 None (Some (ascii ''Foo | Hitomi.la'')) 100)
          initial)"

text \<open>
  An example: tabs 1 and 2, showing the same gallery page, are started at times 100 and
  200, and tab 1 is retried at time 300.
\<close>

definition tieExample :: worker where
  "tieExample =
     step asciiToLowerCase (TabRetried 1 None (Some (ascii ''Foo | Hitomi.la'')) 300)
       (step asciiToLowerCase (TabStarted 2 None (Some (ascii ''Foo | Hitomi.la'')) 200)
          (step asciiToLowerCase (TabStarted 1 None (Some (ascii ''Foo | Hitomi.la'')) 100)
             initial))"

section \<open>Auxiliary facts\<close>

lemma jsIncludes_iff: "jsIncludes s t \<longleftrightarrow> substringOf t s"
proof (induction s)
  case Nil
  show ?case by (auto simp: substringOf_def)
next
  case (Cons c cs)
  have "startsWith t (c # cs) \<longleftrightarrow> (\<exists>post. c # cs = t @ post)"
    unfolding startsWith_def
    by (metis append_eq_conv_conj append_take_drop_id)
  moreover have "substringOf t (c # cs) \<longleftrightarrow> (\<exists>post. c # cs = t @ post) \<or> substringOf t cs"
    unfolding substringOf_def
    apply (rule iffI)
     apply (erule exE)+
    subgoal for pre post
      by (cases pre) auto
    apply (erule disjE)
     apply (metis append_Nil)
    apply (erule exE)+
    subgoal for pre post
      by (rule exI[of _ "c # pre"]) auto
    done
  ultimately show ?case using Cons.IH by simp
qed

lemma jsGreater_not_ge: "jsGreater a b \<Longrightarrow> \<not> jsGreaterEq b a"
  by (cases a; cases b) auto

lemma jsGreater_trans: "jsGreater a b \<Longrightarrow> jsGreater b c \<Longrightarrow> jsGreater a c"
  by (cases a; cases b; cases c) auto

lemma not_greater_then_not_ge: "\<not> jsGreater a b \<Longrightarrow> jsGreater c b \<Longrightarrow> \<not> jsGreaterEq a c"
  by (cases a; cases b; cases c) auto

lemma jsGreaterEq_not_greater: "\<not> jsGreaterEq a b \<Longrightarrow> \<not> jsGreater a b"
  by (cases a; cases b) auto

lemma below_threshold: "\<not> jsGreater a b \<Longrightarrow> \<not> jsGreaterEq b (Num 30) \<Longrightarrow> jsGreater b (Num 0) \<Longrightarrow> \<not> jsGreaterEq a (Num 30)"
  by (cases a; cases b) auto

lemma below_zero: "\<not> jsGreater a (Num 0) \<Longrightarrow> \<not> jsGreaterEq a (Num 30)"
  by (cases a) auto

lemma bestCandidate_result:
  "bestCandidate lc fn ds (bm, bs) = (bm', bs') \<Longrightarrow>
     (bm' = bm \<and> bs' = bs \<and> (\<forall>e \<in> set (candidates ds). \<not> jsGreater (scoreOf lc fn (snd e)) bs))
   \<or> (\<exists>pre tabId state post. candidates ds = pre @ (tabId, state) # post
         \<and> bm' = Some tabId \<and> bs' = scoreOf lc fn state \<and> jsGreater bs' bs
         \<and> (\<forall>e \<in> set pre. \<not> jsGreaterEq (scoreOf lc fn (snd e)) bs')
         \<and> (\<forall>e \<in> set post. \<not> jsGreater (scoreOf lc fn (snd e)) bs'))"
proof (induction ds arbitrary: bm bs)
  case Nil
  then show ?case by (simp add: candidates_def)
next
  case (Cons a ds)
  obtain k s where a: "a = (k, s)" by (cases a)
  show ?case
  proof (cases "isCandidate s")
    case False
    then have rec: "bestCandidate lc fn ds (bm, bs) = (bm', bs')"
      using Cons.prems a by (auto simp: isCandidate_def split: if_splits)
    have "candidates (a # ds) = candidates ds"
      using False a by (simp add: candidates_def)
    then show ?thesis using Cons.IH[OF rec] by simp
  next
    case True
    let ?sc = "scoreOf lc fn s"
    have cands: "candidates (a # ds) = (k, s) # candidates ds"
      using True a by (simp add: candidates_def)
    show ?thesis
    proof (cases "jsGreater ?sc bs")
      case gt: True
      then have rec: "bestCandidate lc fn ds (Some k, ?sc) = (bm', bs')"
        using Cons.prems a True by (simp add: isCandidate_def scoreOf_def Let_def)
      from Cons.IH[OF rec] show ?thesis
      proof (elim disjE conjE exE)
        assume "bm' = Some k" "bs' = ?sc"
          and rest: "\<forall>e \<in> set (candidates ds). \<not> jsGreater (scoreOf lc fn (snd e)) ?sc"
        then have "candidates (a # ds) = [] @ (k, s) # candidates ds \<and> bm' = Some k
            \<and> bs' = scoreOf lc fn s \<and> jsGreater bs' bs
            \<and> (\<forall>e \<in> set []. \<not> jsGreaterEq (scoreOf lc fn (snd e)) bs')
            \<and> (\<forall>e \<in> set (candidates ds). \<not> jsGreater (scoreOf lc fn (snd e)) bs')"
          using cands gt by simp
        then show ?thesis by blast
      next
        fix pre tabId state post
        assume c: "candidates ds = pre @ (tabId, state) # post"
          and b: "bm' = Some tabId" "bs' = scoreOf lc fn state" "jsGreater bs' ?sc"
          and p: "\<forall>e \<in> set pre. \<not> jsGreaterEq (scoreOf lc fn (snd e)) bs'"
          and q: "\<forall>e \<in> set post. \<not> jsGreater (scoreOf lc fn (snd e)) bs'"
        have "candidates (a # ds) = ((k, s) # pre) @ (tabId, state) # post"
          using cands c by simp
        moreover have "jsGreater bs' bs" using b(3) gt by (rule jsGreater_trans)
        moreover have "\<forall>e \<in> set ((k, s) # pre). \<not> jsGreaterEq (scoreOf lc fn (snd e)) bs'"
          using p jsGreater_not_ge[OF b(3)] by simp
        ultimately show ?thesis using b q by blast
      qed
    next
      case ngt: False
      then have rec: "bestCandidate lc fn ds (bm, bs) = (bm', bs')"
        using Cons.prems a True by (simp add: isCandidate_def scoreOf_def Let_def)
      from Cons.IH[OF rec] show ?thesis
      proof (elim disjE conjE exE)
        assume "bm' = bm" "bs' = bs"
          and rest: "\<forall>e \<in> set (candidates ds). \<not> jsGreater (scoreOf lc fn (snd e)) bs"
        then show ?thesis using cands ngt by simp
      next
        fix pre tabId state post
        assume c: "candidates ds = pre @ (tabId, state) # post"
          and b: "bm' = Some tabId" "bs' = scoreOf lc fn state" "jsGreater bs' bs"
          and p: "\<forall>e \<in> set pre. \<not> jsGreaterEq (scoreOf lc fn (snd e)) bs'"
          and q: "\<forall>e \<in> set post. \<not> jsGreater (scoreOf lc fn (snd e)) bs'"
        have "candidates (a # ds) = ((k, s) # pre) @ (tabId, state) # post"
          using cands c by simp
        moreover have "\<forall>e \<in> set ((k, s) # pre). \<not> jsGreaterEq (scoreOf lc fn (snd e)) bs'"
          using p not_greater_then_not_ge[OF ngt b(3)] by simp
        ultimately show ?thesis using b q by blast
      qed
    qed
  qed
qed

lemma mapGet_mapSet: "mapGet (mapSet m k v) k' = (if k' = k then Some v else mapGet m k')"
  by (induction m) (auto simp: mapGet_def)

lemma keys_mapSet: "fst ` set (mapSet m k v) = insert k (fst ` set m)"
proof (induction m)
  case Nil
  show ?case by simp
next
  case (Cons a m)
  obtain k' v' where a: "a = (k', v')" by (cases a)
  show ?case
  proof (cases "k' = k")
    case True
    then show ?thesis using a by simp
  next
    case False
    then show ?thesis using a Cons.IH by (simp add: insert_commute)
  qed
qed

lemma jsGreater_irrefl: "\<not> jsGreater a a"
  by (cases a) auto

lemma distinct_mapSet: "distinct (map fst m) \<Longrightarrow> distinct (map fst (mapSet m k v))"
proof (induction m)
  case Nil
  then show ?case by simp
next
  case (Cons a m)
  obtain k' v' where a: "a = (k', v')" by (cases a)
  show ?case
  proof (cases "k' = k")
    case True
    then show ?thesis using a Cons.prems by simp
  next
    case False
    then show ?thesis using a Cons keys_mapSet[of m k v] by simp
  qed
qed

lemma mapSet_absent: "k \<notin> fst ` set m \<Longrightarrow> mapSet m k v = m @ [(k, v)]"
  by (induction m) auto

lemma mapGet_Some_iff: "distinct (map fst m) \<Longrightarrow> mapGet m k = Some v \<longleftrightarrow> (k, v) \<in> set m"
  by (simp add: mapGet_def)

lemma mapGet_None_iff: "mapGet m k = None \<longleftrightarrow> k \<notin> fst ` set m"
  by (simp add: mapGet_def map_of_eq_None_iff)

lemma in_set_mapSet:
  assumes "distinct (map fst m)"
  shows "(k', v') \<in> set (mapSet m k v) \<longleftrightarrow> (if k' = k then v' = v else (k', v') \<in> set m)"
proof -
  have "(k', v') \<in> set (mapSet m k v) \<longleftrightarrow> mapGet (mapSet m k v) k' = Some v'"
    using distinct_mapSet[OF assms] by (simp add: mapGet_Some_iff)
  also have "\<dots> \<longleftrightarrow> (if k' = k then v' = v else mapGet m k' = Some v')"
    by (auto simp: mapGet_mapSet)
  also have "\<dots> \<longleftrightarrow> (if k' = k then v' = v else (k', v') \<in> set m)"
    using assms by (simp add: mapGet_Some_iff)
  finally show ?thesis .
qed

lemma candidates_subset: "e \<in> set (candidates ds) \<Longrightarrow> e \<in> set ds \<and> isCandidate (snd e)"
  by (simp add: candidates_def)

lemma matchDownloadToTab_result:
  assumes "distinct (map fst ds)"
  shows "(matchDownloadToTab lc dlId fn ds = (False, ds)
          \<and> (\<forall>e \<in> set (candidates ds). \<not> jsGreaterEq (scoreOf lc fn (snd e)) (Num 30)))
       \<or> (\<exists>pre tabId state post. candidates ds = pre @ (tabId, state) # post
            \<and> jsGreaterEq (scoreOf lc fn state) (Num 30)
            \<and> (\<forall>e \<in> set pre. \<not> jsGreaterEq (scoreOf lc fn (snd e)) (scoreOf lc fn state))
            \<and> (\<forall>e \<in> set post. \<not> jsGreater (scoreOf lc fn (snd e)) (scoreOf lc fn state))
            \<and> matchDownloadToTab lc dlId fn ds
                = (True, mapSet ds tabId (state\<lparr>downloadId := Some dlId\<rparr>)))"
proof -
  obtain bm bs where r: "bestCandidate lc fn ds (None, Num 0) = (bm, bs)"
    by (cases "bestCandidate lc fn ds (None, Num 0)")
  from bestCandidate_result[OF r] show ?thesis
  proof (elim disjE conjE exE)
    assume "bm = None" "bs = Num 0"
      and all: "\<forall>e \<in> set (candidates ds). \<not> jsGreater (scoreOf lc fn (snd e)) (Num 0)"
    then have "matchDownloadToTab lc dlId fn ds = (False, ds)"
      using r by (simp add: matchDownloadToTab_def)
    then show ?thesis using all below_zero by blast
  next
    fix pre tabId state post
    assume c: "candidates ds = pre @ (tabId, state) # post"
      and b: "bm = Some tabId" "bs = scoreOf lc fn state" "jsGreater bs (Num 0)"
      and p: "\<forall>e \<in> set pre. \<not> jsGreaterEq (scoreOf lc fn (snd e)) bs"
      and q: "\<forall>e \<in> set post. \<not> jsGreater (scoreOf lc fn (snd e)) bs"
    have "(tabId, state) \<in> set (candidates ds)" using c by simp
    then have "(tabId, state) \<in> set ds" using candidates_subset by blast
    then have get: "mapGet ds tabId = Some state"
      using assms by (simp add: mapGet_Some_iff)
    show ?thesis
    proof (cases "jsGreaterEq bs (Num 30)")
      case True
      then have "matchDownloadToTab lc dlId fn ds
                   = (True, mapSet ds tabId (state\<lparr>downloadId := Some dlId\<rparr>))"
        using r b get by (simp add: matchDownloadToTab_def)
      then show ?thesis using c b p q True by blast
    next
      case False
      then have m: "matchDownloadToTab lc dlId fn ds = (False, ds)"
        using r b by (simp add: matchDownloadToTab_def)
      have "\<not> jsGreaterEq (scoreOf lc fn (snd e)) (Num 30)" if "e \<in> set (candidates ds)" for e
      proof -
        have "e \<in> set pre \<or> e = (tabId, state) \<or> e \<in> set post"
          using that c by auto
        then have "\<not> jsGreater (scoreOf lc fn (snd e)) bs"
          using p q b(2) jsGreaterEq_not_greater jsGreater_irrefl by auto
        then show ?thesis using False b(3) by (rule below_threshold)
      qed
      then show ?thesis using m by blast
    qed
  qed
qed

section \<open>Evaluation of the concrete examples\<close>

lemmas scorer_defs = ascii_def isSpace_def isLineTerminator_def isDigit_def canonicalize_def
  ciPrefix_def startsWith_def trim_def hitomiSuffixAt_def cleanTitle_def zipSuffixAt_def
  lastSegment_def cleanFilename_def zenToHan_def kanjiToNum_def normalizeNumber_def
  isJapaneseNumeral_def isCounter_def japanesePatternAt_def englishKeywords_def
  englishPatternAt_def trailingNumberAt_def isOpenBracket_def isCloseBracket_def
  bracketNumberAt_def extractEpisodeNumbers_def isDecoration_def isSeparator_def
  normalizeForComparison_def similarityScore_def similarityRules_def calculateMatchScore_def
  asciiToLowerCase_def parseInt_def numberOfNat_def digitsValue_def Let_def

lemmas double_defs = toDouble_def times70_def mathRound_def roundQuotient_def bitLength.simps

lemmas registry_defs = candidates_def isCandidate_def scoreOf_def truthyId_def truthyString_def
  freshState_def extractGalleryId_def matchDownloadToTab_def mapGet_def

lemma chapter7_clean:
  "cleanFilename (ascii ''Series X Chapter 7.zip'') = ascii ''Series X Chapter 7''"
  by (simp add: scorer_defs)

lemma chapter2_clean:
  "cleanTitle (Some (ascii ''Series X Chapter 2'')) = ascii ''Series X Chapter 2''"
  by (simp add: scorer_defs)

lemma chapter7_numbers: "extractEpisodeNumbers (ascii ''Series X Chapter 7'') = [Num 7]"
  by (simp add: scorer_defs)

lemma chapter2_numbers: "extractEpisodeNumbers (ascii ''Series X Chapter 2'') = [Num 2]"
  by (simp add: scorer_defs)

lemma chapter7_norm:
  "normalizeForComparison asciiToLowerCase (ascii ''Series X Chapter 7'')
     = ascii ''series x chapter 7''"
  by (simp add: scorer_defs)

lemma chapter2_norm:
  "normalizeForComparison asciiToLowerCase (ascii ''Series X Chapter 2'')
     = ascii ''series x chapter 2''"
  by (simp add: scorer_defs)

lemma chapter_similarity:
  "similarityRules (ascii ''series x chapter 7'') (ascii ''series x chapter 2'') = Num 66"
  by (simp add: scorer_defs double_defs)

lemma score_at_threshold:
  "calculateMatchScore asciiToLowerCase (ascii ''abcdwxyz.zip'') (Some (ascii ''abcdefgh'')) None
     = Num 30"
  by (simp add: scorer_defs double_defs)

lemma score_below_threshold:
  "calculateMatchScore asciiToLowerCase (ascii ''abcdefqrstuvw.zip'')
     (Some (ascii ''abcdefghijklm'')) None = Num 29"
  by (simp add: scorer_defs double_defs)

section \<open>The similarity scorer\<close>

text \<open>
  C4. When the gallery id of the task is a non-empty string that occurs in the file name of
  the download, or in the cleaned file name, the score is 100, whatever the title is.
\<close>

theorem identifier_short_circuit:
  assumes "g \<noteq> []"
    and "substringOf g filename \<or> substringOf g (cleanFilename filename)"
  shows "calculateMatchScore lc filename tabTitle (Some g) = Num 100"
  using assms by (simp add: calculateMatchScore_def jsIncludes_iff Let_def)

theorem identifier_short_circuit_witness:
  "ascii ''123456'' \<noteq> [] \<and> substringOf (ascii ''123456'') (ascii ''Foo_123456.zip'')
   \<and> calculateMatchScore asciiToLowerCase (ascii ''Foo_123456.zip'')
        (Some (ascii ''An unrelated title'')) (Some (ascii ''123456'')) = Num 100"
proof -
  have a: "ascii ''123456'' \<noteq> []" by (simp add: ascii_def)
  have "ascii ''Foo_123456.zip'' = ascii ''Foo_'' @ ascii ''123456'' @ ascii ''.zip''"
    by (simp add: ascii_def)
  then have b: "substringOf (ascii ''123456'') (ascii ''Foo_123456.zip'')"
    unfolding substringOf_def by blast
  show ?thesis using a b identifier_short_circuit[OF a disjI1[OF b]] by simp
qed

text \<open>
  C3. When the gallery id rule, the exact comparison and the normalised comparison do not
  apply, and both the cleaned file name and the cleaned title yield episode numbers with no
  number in common, the score is 10 (so at most 15), whatever containment, common prefix or
  bigram similarity would give.
\<close>

theorem episode_mismatch_penalty:
  assumes "gid = None \<or> gid = Some []
           \<or> (\<exists>g. gid = Some g \<and> \<not> substringOf g filename
                    \<and> \<not> substringOf g (cleanFilename filename))"
    and "cleanFilename filename \<noteq> cleanTitle tabTitle"
    and "normalizeForComparison lc (cleanFilename filename)
           \<noteq> normalizeForComparison lc (cleanTitle tabTitle)"
    and "extractEpisodeNumbers (cleanFilename filename) \<noteq> []"
    and "extractEpisodeNumbers (cleanTitle tabTitle) \<noteq> []"
    and "set (extractEpisodeNumbers (cleanFilename filename))
           \<inter> set (extractEpisodeNumbers (cleanTitle tabTitle)) = {}"
  shows "calculateMatchScore lc filename tabTitle gid = Num 10
         \<and> jsGreaterEq (Num 15) (calculateMatchScore lc filename tabTitle gid)"
proof -
  have g: "\<not> (case gid of None \<Rightarrow> False
             | Some g \<Rightarrow> g \<noteq> [] \<and> (jsIncludes filename g \<or> jsIncludes (cleanFilename filename) g))"
    using assms(1) by (auto simp: jsIncludes_iff)
  have n: "\<not> list_ex (\<lambda>n. n \<in> set (extractEpisodeNumbers (cleanTitle tabTitle)))
               (extractEpisodeNumbers (cleanFilename filename))"
    using assms(6) by (auto simp: list_ex_iff)
  have "calculateMatchScore lc filename tabTitle gid = Num 10"
    using g n assms(2-5) by (simp add: calculateMatchScore_def Let_def)
  then show ?thesis by simp
qed

theorem episode_mismatch_penalty_witness:
  "calculateMatchScore asciiToLowerCase (ascii ''Series X Chapter 7.zip'')
     (Some (ascii ''Series X Chapter 2'')) None = Num 10
   \<and> jsGreaterEq (Num 15)
       (calculateMatchScore asciiToLowerCase (ascii ''Series X Chapter 7.zip'')
          (Some (ascii ''Series X Chapter 2'')) None)
   \<and> similarityRules
       (normalizeForComparison asciiToLowerCase (cleanFilename (ascii ''Series X Chapter 7.zip'')))
       (normalizeForComparison asciiToLowerCase (cleanTitle (Some (ascii ''Series X Chapter 2''))))
       = Num 66"
proof -
  have neq: "ascii ''Series X Chapter 7'' \<noteq> ascii ''Series X Chapter 2''"
    by (simp add: ascii_def)
  have nneq: "ascii ''series x chapter 7'' \<noteq> ascii ''series x chapter 2''"
    by (simp add: ascii_def)
  have "calculateMatchScore asciiToLowerCase (ascii ''Series X Chapter 7.zip'')
          (Some (ascii ''Series X Chapter 2'')) None = Num 10
        \<and> jsGreaterEq (Num 15)
            (calculateMatchScore asciiToLowerCase (ascii ''Series X Chapter 7.zip'')
               (Some (ascii ''Series X Chapter 2'')) None)"
    by (rule episode_mismatch_penalty)
       (simp_all add: chapter7_clean chapter2_clean chapter7_norm chapter2_norm
          chapter7_numbers chapter2_numbers neq nneq)
  then show ?thesis
    by (simp add: chapter7_clean chapter2_clean chapter7_norm chapter2_norm chapter_similarity)
qed

text \<open>
  C8. The score is not always an integer between 0 and 100: for a one-letter file name and
  a different one-letter title both bigram lists are empty and the score is \<^verbatim>\<open>NaN\<close>, and
  a file name that repeats the bigrams of a short title scores above 100.
\<close>

theorem score_outside_range:
  "calculateMatchScore asciiToLowerCase (ascii ''a.zip'') (Some (ascii ''b'')) None = NaN
   \<and> calculateMatchScore asciiToLowerCase (ascii ''abababababababababababab.zip'')
        (Some (ascii ''abba'')) None = Num 124"
  by (simp add: scorer_defs double_defs)

section \<open>Updating the state of a tab\<close>

text \<open>
  C9, as stated, fails: for a tab id that the registry does not hold, \<^verbatim>\<open>updateTabState\<close>
  reports no error and the registry gains an entry for that id.
\<close>

theorem unknown_task_counterexample:
  "mapGet [] 7 = (None :: tabState option)
   \<and> mapGet (updateTabState 7 Error (Some (Text (ascii ''Download button not found''))) []) 7
       = Some (defaultState\<lparr>status := Some Error,
                 details := Some (Text (ascii ''Download button not found''))\<rparr>)"
  by (simp add: updateTabState_def mapGet_def)

text \<open>
  C9, amended. For a tab id that the registry does not hold, \<^verbatim>\<open>updateTabState\<close> appends an
  entry for that id, made of the default object with the given status and details, and
  leaves every other entry as it is.
\<close>

theorem updateTabState_unknown_task:
  assumes "mapGet ds tabId = None"
  shows "updateTabState tabId st det ds
           = ds @ [(tabId, defaultState\<lparr>status := Some st, details := det\<rparr>)]
         \<and> (\<forall>k. k \<noteq> tabId \<longrightarrow> mapGet (updateTabState tabId st det ds) k = mapGet ds k)"
proof -
  have "tabId \<notin> fst ` set ds" using assms by (simp add: mapGet_None_iff)
  then have "updateTabState tabId st det ds
               = ds @ [(tabId, defaultState\<lparr>status := Some st, details := det\<rparr>)]"
    using assms by (simp add: updateTabState_def mapSet_absent)
  moreover have "\<forall>k. k \<noteq> tabId \<longrightarrow> mapGet (updateTabState tabId st det ds) k = mapGet ds k"
    by (simp add: updateTabState_def mapGet_mapSet Let_def)
  ultimately show ?thesis by simp
qed

theorem updateTabState_unknown_task_witness:
  "mapGet [(1, freshState processingText None (Some (ascii ''Foo'')) 100)] 7 = None
   \<and> updateTabState 7 Error None [(1, freshState processingText None (Some (ascii ''Foo'')) 100)]
       = [(1, freshState processingText None (Some (ascii ''Foo'')) 100),
          (7, defaultState\<lparr>status := Some Error, details := None\<rparr>)]"
proof -
  have a: "mapGet [(1, freshState processingText None (Some (ascii ''Foo'')) 100)] 7 = None"
    by (simp add: mapGet_def)
  show ?thesis using a updateTabState_unknown_task[OF a, of Error None] by simp
qed

lemma not_greater_both_eq:
  "jsGreaterEq a (Num 30) \<Longrightarrow> jsGreaterEq b (Num 30) \<Longrightarrow> \<not> jsGreater a b \<Longrightarrow> \<not> jsGreater b a
     \<Longrightarrow> a = b"
  by (cases a; cases b) auto

lemma jsGreaterEq_refl: "jsGreaterEq a (Num 30) \<Longrightarrow> jsGreaterEq a a"
  by (cases a) auto

lemma matchDownloadToTab_unique:
  assumes "distinct (map fst ds)"
    and "(tabId, state) \<in> set (candidates ds)"
    and "jsGreaterEq (scoreOf lc fn state) (Num 30)"
    and "\<forall>e \<in> set (candidates ds). e \<noteq> (tabId, state)
           \<longrightarrow> \<not> jsGreaterEq (scoreOf lc fn (snd e)) (Num 30)"
  shows "matchDownloadToTab lc dlId fn ds
           = (True, mapSet ds tabId (state\<lparr>downloadId := Some dlId\<rparr>))"
  using matchDownloadToTab_result[OF assms(1), of lc dlId fn]
proof (elim disjE conjE exE)
  assume "\<forall>e \<in> set (candidates ds). \<not> jsGreaterEq (scoreOf lc fn (snd e)) (Num 30)"
  then show ?thesis using assms(2,3) by auto
next
  fix pre t s post
  assume c: "candidates ds = pre @ (t, s) # post"
    and ge: "jsGreaterEq (scoreOf lc fn s) (Num 30)"
    and m: "matchDownloadToTab lc dlId fn ds = (True, mapSet ds t (s\<lparr>downloadId := Some dlId\<rparr>))"
  have "(t, s) \<in> set (candidates ds)" using c by simp
  then have "(t, s) = (tabId, state)" using assms(4) ge by auto
  then show ?thesis using m by simp
qed

section \<open>The event matcher\<close>

text \<open>
  C5. The registry has distinct keys. If some candidate (a task in progress with no
  download id) scores 30 or more, \<^verbatim>\<open>matchDownloadToTab\<close> returns true and the registry
  changes in one place only: the download id of a candidate whose score is at least 30 and
  is exceeded by no candidate's score is set to the id of the download. If every candidate
  scores below 30, it returns false and the registry is unchanged.
\<close>

theorem threshold_boundary:
  assumes "distinct (map fst ds)"
  shows "((\<exists>e \<in> set (candidates ds). jsGreaterEq (scoreOf lc fn (snd e)) (Num 30)) \<longrightarrow>
            (\<exists>tabId state. (tabId, state) \<in> set (candidates ds)
               \<and> jsGreaterEq (scoreOf lc fn state) (Num 30)
               \<and> (\<forall>e \<in> set (candidates ds).
                     \<not> jsGreater (scoreOf lc fn (snd e)) (scoreOf lc fn state))
               \<and> matchDownloadToTab lc dlId fn ds
                   = (True, mapSet ds tabId (state\<lparr>downloadId := Some dlId\<rparr>))))
       \<and> ((\<forall>e \<in> set (candidates ds). \<not> jsGreaterEq (scoreOf lc fn (snd e)) (Num 30)) \<longrightarrow>
            matchDownloadToTab lc dlId fn ds = (False, ds))"
  using matchDownloadToTab_result[OF assms, of lc dlId fn]
proof (elim disjE conjE exE)
  assume "matchDownloadToTab lc dlId fn ds = (False, ds)"
    and "\<forall>e \<in> set (candidates ds). \<not> jsGreaterEq (scoreOf lc fn (snd e)) (Num 30)"
  then show ?thesis by simp
next
  fix pre tabId state post
  assume c: "candidates ds = pre @ (tabId, state) # post"
    and ge: "jsGreaterEq (scoreOf lc fn state) (Num 30)"
    and p: "\<forall>e \<in> set pre. \<not> jsGreaterEq (scoreOf lc fn (snd e)) (scoreOf lc fn state)"
    and q: "\<forall>e \<in> set post. \<not> jsGreater (scoreOf lc fn (snd e)) (scoreOf lc fn state)"
    and m: "matchDownloadToTab lc dlId fn ds
              = (True, mapSet ds tabId (state\<lparr>downloadId := Some dlId\<rparr>))"
  have mem: "(tabId, state) \<in> set (candidates ds)" using c by simp
  have "\<not> jsGreater (scoreOf lc fn (snd e)) (scoreOf lc fn state)"
    if "e \<in> set (candidates ds)" for e
  proof -
    have "e \<in> set pre \<or> e = (tabId, state) \<or> e \<in> set post" using that c by auto
    then show ?thesis using p q jsGreaterEq_not_greater jsGreater_irrefl by auto
  qed
  then have "\<exists>tabId state. (tabId, state) \<in> set (candidates ds)
               \<and> jsGreaterEq (scoreOf lc fn state) (Num 30)
               \<and> (\<forall>e \<in> set (candidates ds).
                     \<not> jsGreater (scoreOf lc fn (snd e)) (scoreOf lc fn state))
               \<and> matchDownloadToTab lc dlId fn ds
                   = (True, mapSet ds tabId (state\<lparr>downloadId := Some dlId\<rparr>))"
    using mem ge m by blast
  moreover have "\<not> (\<forall>e \<in> set (candidates ds). \<not> jsGreaterEq (scoreOf lc fn (snd e)) (Num 30))"
    using mem ge by force
  ultimately show ?thesis by blast
qed

theorem threshold_boundary_witness:
  "scoreOf asciiToLowerCase (ascii ''abcdwxyz.zip'')
     (freshState processingText None (Some (ascii ''abcdefgh'')) 100) = Num 30
   \<and> fst (matchDownloadToTab asciiToLowerCase 5 (ascii ''abcdwxyz.zip'')
            [(1, freshState processingText None (Some (ascii ''abcdefgh'')) 100)])
   \<and> scoreOf asciiToLowerCase (ascii ''abcdefqrstuvw.zip'')
       (freshState processingText None (Some (ascii ''abcdefghijklm'')) 100) = Num 29
   \<and> matchDownloadToTab asciiToLowerCase 5 (ascii ''abcdefqrstuvw.zip'')
       [(1, freshState processingText None (Some (ascii ''abcdefghijklm'')) 100)]
     = (False, [(1, freshState processingText None (Some (ascii ''abcdefghijklm'')) 100)])"
proof -
  let ?s30 = "freshState processingText None (Some (ascii ''abcdefgh'')) 100"
  let ?s29 = "freshState processingText None (Some (ascii ''abcdefghijklm'')) 100"
  have sc30: "scoreOf asciiToLowerCase (ascii ''abcdwxyz.zip'') ?s30 = Num 30"
    by (simp add: scoreOf_def freshState_def extractGalleryId_def score_at_threshold)
  have sc29: "scoreOf asciiToLowerCase (ascii ''abcdefqrstuvw.zip'') ?s29 = Num 29"
    by (simp add: scoreOf_def freshState_def extractGalleryId_def score_below_threshold)
  have c30: "candidates [(1, ?s30)] = [(1, ?s30)]"
    by (simp add: candidates_def isCandidate_def freshState_def truthyId_def)
  have c29: "candidates [(1, ?s29)] = [(1, ?s29)]"
    by (simp add: candidates_def isCandidate_def freshState_def truthyId_def)
  have d30: "distinct (map fst [(1::nat, ?s30)])" by simp
  have d29: "distinct (map fst [(1::nat, ?s29)])" by simp
  have "fst (matchDownloadToTab asciiToLowerCase 5 (ascii ''abcdwxyz.zip'') [(1, ?s30)])"
    using threshold_boundary[OF d30, of asciiToLowerCase "ascii ''abcdwxyz.zip''" 5] c30 sc30
    by auto
  moreover have "matchDownloadToTab asciiToLowerCase 5 (ascii ''abcdefqrstuvw.zip'') [(1, ?s29)]
                   = (False, [(1, ?s29)])"
    using threshold_boundary[OF d29, of asciiToLowerCase "ascii ''abcdefqrstuvw.zip''" 5] c29 sc29
    by simp
  ultimately show ?thesis using sc30 sc29 by simp
qed

lemma tieExample_registry:
  "downloadState tieExample
     = [(1, freshState startingText None (Some (ascii ''Foo | Hitomi.la'')) 300),
        (2, freshState processingText None (Some (ascii ''Foo | Hitomi.la'')) 200)]"
  by (simp add: tieExample_def initial_def)

lemma tieExample_score:
  "calculateMatchScore asciiToLowerCase (ascii ''Foo.zip'') (Some (ascii ''Foo | Hitomi.la'')) None
     = Num 100"
  by (simp add: scorer_defs)

lemma foo_zip_nonempty: "ascii ''Foo.zip'' \<noteq> []"
  by (simp add: ascii_def)

text \<open>
  C7, as stated, fails. In the example both tabs are candidates with the same score 100 for
  the download \<^verbatim>\<open>Foo.zip\<close>; tab 2 has the earlier start time (200 against 300), yet the
  download is bound to tab 1, whose key was inserted first.
\<close>

theorem tie_break_counterexample:
  "downloadState tieExample
     = [(1, freshState startingText None (Some (ascii ''Foo | Hitomi.la'')) 300),
        (2, freshState processingText None (Some (ascii ''Foo | Hitomi.la'')) 200)]
   \<and> candidates (downloadState tieExample) = downloadState tieExample
   \<and> scoreOf asciiToLowerCase (ascii ''Foo.zip'')
       (freshState startingText None (Some (ascii ''Foo | Hitomi.la'')) 300) = Num 100
   \<and> scoreOf asciiToLowerCase (ascii ''Foo.zip'')
       (freshState processingText None (Some (ascii ''Foo | Hitomi.la'')) 200) = Num 100
   \<and> startTime (freshState startingText None (Some (ascii ''Foo | Hitomi.la'')) 300) = Some 300
   \<and> startTime (freshState processingText None (Some (ascii ''Foo | Hitomi.la'')) 200) = Some 200
   \<and> boundTo (step asciiToLowerCase (DownloadCreated 5 (Some (ascii ''Foo.zip'')) None) tieExample) 1
       = Some 5
   \<and> boundTo (step asciiToLowerCase (DownloadCreated 5 (Some (ascii ''Foo.zip'')) None) tieExample) 2
       = None"
  by (simp add: tieExample_registry registry_defs tieExample_score boundTo_def boundIn_def
      onCreated_def foo_zip_nonempty)

text \<open>
  C7, amended. The registry has distinct keys. When a candidate scores 30 or more and no
  candidate scores higher, the download is bound to the first candidate, in the iteration
  order of the registry (the order in which the tab ids were first inserted), that has
  this maximal score: every candidate before the bound one scores lower.
\<close>

theorem tie_break_registry_order:
  assumes "distinct (map fst ds)"
    and "(t, s) \<in> set (candidates ds)"
    and "jsGreaterEq (scoreOf lc fn s) (Num 30)"
    and "\<forall>e \<in> set (candidates ds). \<not> jsGreater (scoreOf lc fn (snd e)) (scoreOf lc fn s)"
  shows "\<exists>pre tabId state post.
           candidates ds = pre @ (tabId, state) # post
           \<and> scoreOf lc fn state = scoreOf lc fn s
           \<and> (\<forall>e \<in> set pre. \<not> jsGreaterEq (scoreOf lc fn (snd e)) (scoreOf lc fn s))
           \<and> matchDownloadToTab lc dlId fn ds
               = (True, mapSet ds tabId (state\<lparr>downloadId := Some dlId\<rparr>))"
  using matchDownloadToTab_result[OF assms(1), of lc dlId fn]
proof (elim disjE conjE exE)
  assume "\<forall>e \<in> set (candidates ds). \<not> jsGreaterEq (scoreOf lc fn (snd e)) (Num 30)"
  then show ?thesis using assms(2,3) by force
next
  fix pre tabId state post
  assume c: "candidates ds = pre @ (tabId, state) # post"
    and ge: "jsGreaterEq (scoreOf lc fn state) (Num 30)"
    and p: "\<forall>e \<in> set pre. \<not> jsGreaterEq (scoreOf lc fn (snd e)) (scoreOf lc fn state)"
    and q: "\<forall>e \<in> set post. \<not> jsGreater (scoreOf lc fn (snd e)) (scoreOf lc fn state)"
    and m: "matchDownloadToTab lc dlId fn ds
              = (True, mapSet ds tabId (state\<lparr>downloadId := Some dlId\<rparr>))"
  have "(tabId, state) \<in> set (candidates ds)" using c by simp
  then have a: "\<not> jsGreater (scoreOf lc fn state) (scoreOf lc fn s)"
    using assms(4) by force
  have "(t, s) \<in> set pre \<or> (t, s) = (tabId, state) \<or> (t, s) \<in> set post"
    using assms(2) c by auto
  then have b: "\<not> jsGreater (scoreOf lc fn s) (scoreOf lc fn state)"
    using p q jsGreaterEq_not_greater jsGreater_irrefl by force
  have eq: "scoreOf lc fn state = scoreOf lc fn s"
    using not_greater_both_eq[OF ge assms(3) a b] .
  show ?thesis using c eq p m by auto
qed

theorem tie_break_registry_order_witness:
  "distinct (map fst (downloadState tieExample))
   \<and> (2, freshState processingText None (Some (ascii ''Foo | Hitomi.la'')) 200)
       \<in> set (candidates (downloadState tieExample))
   \<and> fst (matchDownloadToTab asciiToLowerCase 5 (ascii ''Foo.zip'') (downloadState tieExample))"
proof -
  let ?s = "freshState processingText None (Some (ascii ''Foo | Hitomi.la'')) 200"
  have d: "distinct (map fst (downloadState tieExample))"
    by (simp add: tieExample_registry)
  have c: "candidates (downloadState tieExample) = downloadState tieExample"
    by (simp add: tieExample_registry registry_defs)
  have mem: "(2, ?s) \<in> set (candidates (downloadState tieExample))"
    unfolding c by (simp add: tieExample_registry)
  have sc: "\<forall>e \<in> set (candidates (downloadState tieExample)).
              scoreOf asciiToLowerCase (ascii ''Foo.zip'') (snd e) = Num 100"
    unfolding c by (simp add: tieExample_registry scoreOf_def freshState_def
        extractGalleryId_def tieExample_score)
  have s100: "scoreOf asciiToLowerCase (ascii ''Foo.zip'') ?s = Num 100"
    using sc mem by force
  have ge: "jsGreaterEq (scoreOf asciiToLowerCase (ascii ''Foo.zip'') ?s) (Num 30)"
    by (simp add: s100)
  have mx: "\<forall>e \<in> set (candidates (downloadState tieExample)).
              \<not> jsGreater (scoreOf asciiToLowerCase (ascii ''Foo.zip'') (snd e))
                   (scoreOf asciiToLowerCase (ascii ''Foo.zip'') ?s)"
    using sc by (simp add: s100)
  show ?thesis
    using d mem tie_break_registry_order[OF d mem ge mx, of 5] by auto
qed

section \<open>Facts about the registry\<close>

lemma mapGet_updateTabState:
  "mapGet (updateTabState t st det ds) k
     = (if k = t
        then Some ((case mapGet ds t of Some s \<Rightarrow> s | None \<Rightarrow> defaultState)
                     \<lparr>status := Some st, details := det\<rparr>)
        else mapGet ds k)"
  by (simp add: updateTabState_def mapGet_mapSet Let_def)

lemma distinct_updateTabState:
  "distinct (map fst ds) \<Longrightarrow> distinct (map fst (updateTabState t st det ds))"
  by (simp add: updateTabState_def distinct_mapSet Let_def)

lemma findBound_Some:
  assumes "distinct (map fst ds)" and "findBound ds d = Some t"
  shows "\<exists>s. mapGet ds t = Some s \<and> downloadId s = Some d"
proof -
  obtain e where f: "find (\<lambda>e. downloadId (snd e) = Some d) ds = Some e" and t: "t = fst e"
    using assms(2) by (auto simp: findBound_def)
  from f have "e \<in> set ds" and "downloadId (snd e) = Some d"
    by (auto simp: find_Some_iff)
  then have "mapGet ds (fst e) = Some (snd e)"
    using assms(1) by (simp add: mapGet_Some_iff)
  then show ?thesis using t \<open>downloadId (snd e) = Some d\<close> by blast
qed

lemma findBound_None:
  assumes "findBound ds d = None"
  shows "d \<notin> boundIds ds"
proof
  assume "d \<in> boundIds ds"
  then obtain t s where g: "mapGet ds t = Some s" and b: "downloadId s = Some d"
    by (auto simp: boundIds_def)
  from g have "(t, s) \<in> set ds" by (simp add: mapGet_def map_of_SomeD)
  moreover have "\<forall>e \<in> set ds. downloadId (snd e) \<noteq> Some d"
    using assms by (auto simp: findBound_def find_None_iff)
  ultimately show False using b by force
qed

lemma findBound_bound:
  assumes "mapGet ds t = Some s" and "downloadId s = Some d"
  shows "\<exists>t'. findBound ds d = Some t'"
proof (cases "findBound ds d")
  case None
  then have "d \<notin> boundIds ds" by (rule findBound_None)
  then show ?thesis using assms by (auto simp: boundIds_def)
next
  case (Some t')
  then show ?thesis by simp
qed

lemma matchDownloadToTab_cases:
  assumes "distinct (map fst ds)"
  shows "matchDownloadToTab lc d fn ds = (False, ds)
       \<or> (\<exists>t s. mapGet ds t = Some s \<and> isCandidate s
            \<and> matchDownloadToTab lc d fn ds = (True, mapSet ds t (s\<lparr>downloadId := Some d\<rparr>)))"
  using matchDownloadToTab_result[OF assms, of lc d fn]
proof (elim disjE conjE exE)
  assume "matchDownloadToTab lc d fn ds = (False, ds)"
  then show ?thesis by simp
next
  fix pre t s post
  assume c: "candidates ds = pre @ (t, s) # post"
    and m: "matchDownloadToTab lc d fn ds = (True, mapSet ds t (s\<lparr>downloadId := Some d\<rparr>))"
  have "(t, s) \<in> set (candidates ds)" using c by simp
  then have "(t, s) \<in> set ds" and "isCandidate s"
    using candidates_subset by force+
  then have "mapGet ds t = Some s \<and> isCandidate s"
    using assms by (simp add: mapGet_Some_iff)
  then show ?thesis using m by blast
qed

section \<open>Re-matching when the file name becomes known\<close>

lemma stateChanged_keeps_bound:
  assumes "distinct (map fst (downloadState w))"
    and "boundTo w t = Some d"
    and "unmatchedDownloads w d = None"
  shows "boundTo (stateChanged lc d current err w) t = Some d
         \<and> unmatchedDownloads (stateChanged lc d current err w) d = None"
proof -
  obtain s where s: "mapGet (downloadState w) t = Some s" "downloadId s = Some d"
    using assms(2) by (auto simp: boundTo_def boundIn_def split: option.splits)
  then obtain t' where f: "findBound (downloadState w) d = Some t'"
    using findBound_bound by blast
  have keep: "boundTo (w\<lparr>downloadState := updateTabState t' st det (downloadState w),
                          monitoredTabs := m, unmatchedDownloads := u\<rparr>) t = Some d"
    for st det m u
    using s by (auto simp: boundTo_def boundIn_def mapGet_updateTabState)
  show ?thesis
    using f assms(2,3) keep by (simp add: stateChanged_def)
qed

text \<open>
  C6. A download created without a file name is parked in \<^verbatim>\<open>unmatchedDownloads\<close> with no
  name. When a later change reports its file name, and exactly one candidate of the
  registry scores 30 or more for that name, the download is bound to that candidate and its
  entry is removed from \<^verbatim>\<open>unmatchedDownloads\<close>, whatever else the change reports.
\<close>

theorem late_metadata_rematch:
  assumes "distinct (map fst (downloadState w))"
    and "unmatchedDownloads w dlId = Some (None, u)"
    and "name \<noteq> []"
    and "(tabId, state) \<in> set (candidates (downloadState w))"
    and "jsGreaterEq (scoreOf lc name state) (Num 30)"
    and "\<forall>e \<in> set (candidates (downloadState w)). e \<noteq> (tabId, state)
           \<longrightarrow> \<not> jsGreaterEq (scoreOf lc name (snd e)) (Num 30)"
  shows "unmatchedDownloads (onCreated lc dlId None u w0) dlId = Some (None, u)
         \<and> boundTo (onChanged lc dlId (Some name) st err w) tabId = Some dlId
         \<and> unmatchedDownloads (onChanged lc dlId (Some name) st err w) dlId = None"
proof -
  let ?ds' = "mapSet (downloadState w) tabId (state\<lparr>downloadId := Some dlId\<rparr>)"
  let ?w1 = "filenameDetermined lc dlId (Some name) w"
  have m: "matchDownloadToTab lc dlId name (downloadState w) = (True, ?ds')"
    using matchDownloadToTab_unique[OF assms(1,4,5,6)] .
  have w1: "?w1 = w\<lparr>downloadState := ?ds',
                       unmatchedDownloads := (unmatchedDownloads w)(dlId := None)\<rparr>"
    using assms(2,3) m by (simp add: filenameDetermined_def truthyString_def)
  have b1: "boundTo ?w1 tabId = Some dlId"
    by (simp add: w1 boundTo_def boundIn_def mapGet_mapSet)
  have u1: "unmatchedDownloads ?w1 dlId = None"
    by (simp add: w1)
  have d1: "distinct (map fst (downloadState ?w1))"
    using assms(1) by (simp add: w1 distinct_mapSet)
  have "boundTo (onChanged lc dlId (Some name) st err w) tabId = Some dlId
        \<and> unmatchedDownloads (onChanged lc dlId (Some name) st err w) dlId = None"
  proof (cases st)
    case None
    then show ?thesis using b1 u1 by (simp add: onChanged_def)
  next
    case (Some current)
    then show ?thesis
      using stateChanged_keeps_bound[OF d1 b1 u1, of lc current err]
      by (simp add: onChanged_def)
  qed
  moreover have "unmatchedDownloads (onCreated lc dlId None u w0) dlId = Some (None, u)"
    by (simp add: onCreated_def truthyString_def)
  ultimately show ?thesis by simp
qed


lemma parkedExample_state:
  "parkedExample
     = \<lparr>downloadState = [(1, freshState processingText None (Some (ascii ''Foo | Hitomi.la'')) 100)],
        monitoredTabs = {},
        unmatchedDownloads = [5 \<mapsto> (None, None)]\<rparr>"
  by (simp add: parkedExample_def initial_def onCreated_def truthyString_def)

theorem late_metadata_rematch_witness:
  "unmatchedDownloads parkedExample 5 = Some (None, None)
   \<and> boundTo (step asciiToLowerCase (DownloadChanged 5 (Some (ascii ''Foo.zip'')) None None)
               parkedExample) 1 = Some 5
   \<and> unmatchedDownloads
       (step asciiToLowerCase (DownloadChanged 5 (Some (ascii ''Foo.zip'')) None None)
          parkedExample) 5 = None"
proof -
  let ?s = "freshState processingText None (Some (ascii ''Foo | Hitomi.la'')) 100"
  have d: "distinct (map fst (downloadState parkedExample))"
    by (simp add: parkedExample_state)
  have u: "unmatchedDownloads parkedExample 5 = Some (None, None)"
    by (simp add: parkedExample_state)
  have c: "candidates (downloadState parkedExample) = [(1, ?s)]"
    by (simp add: parkedExample_state registry_defs)
  have mem: "(1, ?s) \<in> set (candidates (downloadState parkedExample))"
    by (simp add: c)
  have ge: "jsGreaterEq (scoreOf asciiToLowerCase (ascii ''Foo.zip'') ?s) (Num 30)"
    by (simp add: scoreOf_def freshState_def extractGalleryId_def tieExample_score)
  have others: "\<forall>e \<in> set (candidates (downloadState parkedExample)). e \<noteq> (1, ?s)
                  \<longrightarrow> \<not> jsGreaterEq (scoreOf asciiToLowerCase (ascii ''Foo.zip'') (snd e)) (Num 30)"
    by (simp add: c)
  show ?thesis
    using u late_metadata_rematch[OF d u foo_zip_nonempty mem ge others, of initial None None]
    by simp
qed

section \<open>Who completes a task\<close>

lemma statusIn_mapSet:
  "statusIn (mapSet ds t v) k = (if k = t then status v else statusIn ds k)"
  by (simp add: statusIn_def mapGet_mapSet)

lemma statusIn_updateTabState:
  "statusIn (updateTabState t st det ds) k = (if k = t then Some st else statusIn ds k)"
  by (simp add: statusIn_def mapGet_updateTabState)

lemma statusIn_bind:
  "mapGet ds t = Some s \<Longrightarrow> statusIn (mapSet ds t (s\<lparr>downloadId := d\<rparr>)) k = statusIn ds k"
  by (simp add: statusIn_def mapGet_mapSet)

lemma statusIn_match:
  assumes "distinct (map fst ds)"
  shows "statusIn (snd (matchDownloadToTab lc d fn ds)) k = statusIn ds k"
  using matchDownloadToTab_cases[OF assms, of lc d fn] by (auto simp: statusIn_bind)

lemma distinct_match:
  assumes "distinct (map fst ds)"
  shows "distinct (map fst (snd (matchDownloadToTab lc d fn ds)))"
  using matchDownloadToTab_cases[OF assms, of lc d fn] assms by (auto simp: distinct_mapSet)

lemma filenameDetermined_registry:
  "downloadState (filenameDetermined lc d current w) = downloadState w
   \<or> downloadState (filenameDetermined lc d current w)
       = snd (matchDownloadToTab lc d (the current) (downloadState w))"
  by (auto simp: filenameDetermined_def split: option.splits prod.splits)

lemma statusOf_filenameDetermined:
  assumes "distinct (map fst (downloadState w))"
  shows "statusOf (filenameDetermined lc d current w) k = statusOf w k"
  using filenameDetermined_registry[of lc d current w] statusIn_match[OF assms]
  by (auto simp: statusOf_def)

lemma distinct_filenameDetermined:
  assumes "distinct (map fst (downloadState w))"
  shows "distinct (map fst (downloadState (filenameDetermined lc d current w)))"
  using filenameDetermined_registry[of lc d current w] distinct_match[OF assms] assms
  by auto

lemma statusOf_onCreated:
  assumes "distinct (map fst (downloadState w))"
  shows "statusOf (onCreated lc d fname u w) k = statusOf w k"
proof -
  have "downloadState (onCreated lc d fname u w) = downloadState w
        \<or> downloadState (onCreated lc d fname u w)
            = snd (matchDownloadToTab lc d (the fname) (downloadState w))"
    by (auto simp: onCreated_def split: prod.splits)
  then show ?thesis using statusIn_match[OF assms] by (auto simp: statusOf_def)
qed

lemma completed_bound:
  assumes "distinct (map fst ds)" and "findBound ds d = Some t"
    and "statusIn (updateTabState t Complete det ds) k = Some Complete"
    and "statusIn ds k \<noteq> Some Complete"
  shows "boundIn (updateTabState t Complete det ds) k = Some d"
proof -
  have "k = t" using assms(3,4) by (auto simp: statusIn_updateTabState split: if_splits)
  moreover obtain s where "mapGet ds t = Some s" "downloadId s = Some d"
    using findBound_Some[OF assms(1,2)] by blast
  ultimately show ?thesis by (simp add: boundIn_def mapGet_updateTabState)
qed

lemma stateChanged_complete:
  assumes "distinct (map fst (downloadState w))"
    and "statusOf w k \<noteq> Some Complete"
    and "statusOf (stateChanged lc d current err w) k = Some Complete"
  shows "current = Some complete \<and> boundTo (stateChanged lc d current err w) k = Some d"
proof (cases "findBound (downloadState w) d")
  case (Some t)
  show ?thesis
  proof (cases "current = Some complete")
    case True
    then show ?thesis
      using Some assms completed_bound[OF assms(1) Some, of "Some (Text [])" k]
      by (simp add: stateChanged_def statusOf_def boundTo_def)
  next
    case False
    then show ?thesis
      using Some assms
      by (auto simp: stateChanged_def statusOf_def statusIn_updateTabState split: if_splits)
  qed
next
  case None
  show ?thesis
  proof (cases "current = Some complete")
    case False
    then show ?thesis using None assms by (simp add: stateChanged_def)
  next
    case True
    show ?thesis
    proof (cases "unmatchedDownloads w d")
      case nu: None
      then show ?thesis using None True assms by (simp add: stateChanged_def)
    next
      case (Some x)
      obtain fname u where x: "x = (fname, u)" by (cases x)
      show ?thesis
      proof (cases "truthyString fname")
        case False
        then show ?thesis using None True Some x assms by (simp add: stateChanged_def)
      next
        case tf: True
        obtain matched ds' where m: "matchDownloadToTab lc d (the fname) (downloadState w) = (matched, ds')"
          by (cases "matchDownloadToTab lc d (the fname) (downloadState w)")
        have st': "statusIn ds' k = statusIn (downloadState w) k"
          using statusIn_match[OF assms(1), of lc d "the fname" k] m by simp
        have d': "distinct (map fst ds')"
          using distinct_match[OF assms(1), of lc d "the fname"] m by simp
        show ?thesis
        proof (cases "matched \<and> findBound ds' d \<noteq> None")
          case False
          then have "statusOf (stateChanged lc d current err w) k = statusIn ds' k"
            using None True Some x tf m
            by (auto simp: stateChanged_def statusOf_def Let_def split: option.splits)
          then show ?thesis using assms st' by (simp add: statusOf_def)
        next
          case mt: True
          then obtain t where f: "findBound ds' d = Some t" by auto
          have r: "downloadState (stateChanged lc d current err w)
                     = updateTabState t Complete (Some (Text [])) ds'"
            using None True Some x tf m mt f by (simp add: stateChanged_def Let_def)
          have "boundIn (updateTabState t Complete (Some (Text [])) ds') k = Some d"
            using completed_bound[OF d' f, of "Some (Text [])" k] assms(2,3) st' r
            by (simp add: statusOf_def)
          then show ?thesis using True r by (simp add: boundTo_def)
        qed
      qed
    qed
  qed
qed

lemma statusIn_filter:
  "statusIn (filter (\<lambda>e. status (snd e) \<noteq> Some Complete) ds) k \<noteq> Some Complete"
proof
  assume a: "statusIn (filter (\<lambda>e. status (snd e) \<noteq> Some Complete) ds) k = Some Complete"
  then obtain s where g: "mapGet (filter (\<lambda>e. status (snd e) \<noteq> Some Complete) ds) k = Some s"
    and c: "status s = Some Complete"
    by (auto simp: statusIn_def split: option.splits)
  have "(k, s) \<in> set (filter (\<lambda>e. status (snd e) \<noteq> Some Complete) ds)"
    using g unfolding mapGet_def by (rule map_of_SomeD)
  then show False using c by simp
qed

lemma statusIn_same_status:
  "mapGet ds t = Some s \<Longrightarrow> status s' = status s \<Longrightarrow> statusIn (mapSet ds t s') k = statusIn ds k"
  by (simp add: statusIn_def mapGet_mapSet)

lemma statusIn_hadProgressBar:
  "statusIn (case mapGet ds t of None \<Rightarrow> ds
             | Some s \<Rightarrow> mapSet ds t (s\<lparr>hadProgressBar := b\<rparr>)) k = statusIn ds k"
  by (cases "mapGet ds t") (simp_all add: statusIn_same_status)

lemma statusOf_poll:
  "statusOf (pollTabProgress t outcome w) k = statusOf w k
   \<or> (k = t \<and> statusOf (pollTabProgress t outcome w) k = Some InProgress)"
proof (cases outcome)
  case (Result st prog)
  show ?thesis
  proof (cases "mapGet (downloadState w) t")
    case None
    then show ?thesis using Result by (simp add: pollTabProgress_def)
  next
    case (Some cur)
    let ?ds1 = "mapSet (downloadState w) t (cur\<lparr>progress := Some prog\<rparr>)"
    have s1: "statusIn ?ds1 k = statusIn (downloadState w) k"
      using Some by (simp add: statusIn_same_status)
    show ?thesis
      using Result Some s1
      by (auto simp: pollTabProgress_def statusOf_def Let_def statusIn_hadProgressBar
          statusIn_updateTabState)
  qed
next
  case NoResult
  then show ?thesis by (simp add: pollTabProgress_def)
next
  case (Failed tabExists)
  then show ?thesis by (simp add: pollTabProgress_def statusOf_def)
qed

lemma poll_not_complete:
  "statusOf (pollTabProgress t outcome w) k = Some Complete \<Longrightarrow> statusOf w k = Some Complete"
  using statusOf_poll[of t outcome w k] by auto

lemma poll_stays_in_progress:
  "statusOf w k = Some InProgress \<Longrightarrow> statusOf (pollTabProgress t outcome w) k = Some InProgress"
  using statusOf_poll[of t outcome w k] by auto

lemma step_complete:
  assumes "distinct (map fst (downloadState w))"
    and "statusOf w k \<noteq> Some Complete"
    and "statusOf (step lc e w) k = Some Complete"
  shows "\<exists>d fname err. e = DownloadChanged d fname (Some (Some complete)) err
           \<and> boundTo (step lc e w) k = Some d"
proof (cases e)
  case (DownloadCreated d fname u)
  then show ?thesis using assms statusOf_onCreated[OF assms(1)] by simp
next
  case (DownloadChanged d fname st err)
  let ?w1 = "filenameDetermined lc d fname w"
  have d1: "distinct (map fst (downloadState ?w1))"
    using assms(1) by (rule distinct_filenameDetermined)
  have s1: "statusOf ?w1 k \<noteq> Some Complete"
    using assms(2) statusOf_filenameDetermined[OF assms(1)] by simp
  show ?thesis
  proof (cases st)
    case None
    then show ?thesis using DownloadChanged assms(3) s1 by (simp add: onChanged_def)
  next
    case (Some current)
    then have "statusOf (stateChanged lc d current err ?w1) k = Some Complete"
      using DownloadChanged assms(3) by (simp add: onChanged_def)
    from stateChanged_complete[OF d1 s1 this]
    show ?thesis using DownloadChanged Some by (auto simp: onChanged_def)
  qed
next
  case (Polled t outcome)
  then show ?thesis using assms poll_not_complete by auto
next
  case (TabStarted t u ti now)
  then show ?thesis using assms
    by (auto simp: statusOf_def statusIn_mapSet freshState_def split: if_splits)
next
  case (TabRetried t u ti now)
  then show ?thesis using assms
    by (auto simp: statusOf_def statusIn_mapSet freshState_def split: if_splits)
next
  case (TabMonitored t)
  then show ?thesis using assms by (simp add: statusOf_def)
next
  case (TabFailed t msg)
  then show ?thesis using assms
    by (auto simp: statusOf_def statusIn_updateTabState split: if_splits)
next
  case (DownloadClicked t)
  then show ?thesis using assms
    by (auto simp: statusOf_def downloadClicked_def statusIn_updateTabState statusIn_mapSet
        Let_def split: if_splits)
next
  case (DownloadProgress t prog)
  then show ?thesis using assms
    by (auto simp: statusOf_def downloadProgress_def statusIn_updateTabState statusIn_mapSet
        Let_def split: if_splits option.splits)
next
  case (DownloadError t msg)
  then show ?thesis using assms
    by (auto simp: statusOf_def downloadError_def statusIn_updateTabState split: if_splits)
next
  case ClearCompleted
  then show ?thesis using assms statusIn_filter
    by (simp add: statusOf_def clearCompleted_def)
qed


lemma progressExample_state:
  "progressExample
     = \<lparr>downloadState =
          [(1, \<lparr>status = Some InProgress, downloadId = Some 5,
                 details = Some (Percent (Num 95)), progress = Some (Num 95), url = None,
                 title = Some (ascii ''Foo | Hitomi.la''), galleryId = None,
                 hadProgressBar = Some True, startTime = Some 100\<rparr>)],
        monitoredTabs = {1},
        unmatchedDownloads = Map.empty\<rparr>"
  by (simp add: progressExample_def initial_def onCreated_def registry_defs tieExample_score
      foo_zip_nonempty pollTabProgress_def updateTabState_def Let_def)

text \<open>
  C2. The registry has distinct keys. A poll, whatever its outcome, leaves no task complete
  that was not complete before, and a task that is in progress is still in progress after
  the poll. Whatever the event, a task that is not complete before it and complete after it
  has been completed by a change notification of the download subsystem that reports the
  state \<^verbatim>\<open>complete\<close> for the download id the task is bound to.
\<close>

theorem poller_never_completes:
  assumes "distinct (map fst (downloadState w))"
  shows "(statusOf (pollTabProgress t outcome w) k = Some Complete
            \<longrightarrow> statusOf w k = Some Complete)
       \<and> (statusOf w k = Some InProgress
            \<longrightarrow> statusOf (pollTabProgress t outcome w) k = Some InProgress)
       \<and> (statusOf w k \<noteq> Some Complete \<and> statusOf (step lc e w) k = Some Complete
            \<longrightarrow> (\<exists>d fname err. e = DownloadChanged d fname (Some (Some complete)) err
                   \<and> boundTo (step lc e w) k = Some d))"
  using poll_not_complete[of t outcome w k] poll_stays_in_progress[of w k t outcome]
    step_complete[OF assms, of k lc e]
  by blast

text \<open>
  An example: the task has progress 95 and the page shows neither the
  progress bar nor the download button, so that the poll reports \<^verbatim>\<open>preparing\<close>; the task
  stays in progress. The notification that download 5 is complete completes it.
\<close>

theorem poller_never_completes_witness:
  "distinct (map fst (downloadState progressExample))
   \<and> statusOf progressExample 1 = Some InProgress
   \<and> downloadState progressExample
       = [(1, \<lparr>status = Some InProgress, downloadId = Some 5,
                details = Some (Percent (Num 95)), progress = Some (Num 95), url = None,
                title = Some (ascii ''Foo | Hitomi.la''), galleryId = None,
                hadProgressBar = Some True, startTime = Some 100\<rparr>)]
   \<and> getProgressFromPage \<lparr>progressbar = None, dlButton = None\<rparr> = (preparing, Num 100)
   \<and> statusOf (pollTabProgress 1 (Result preparing (Num 100)) progressExample) 1
       = Some InProgress
   \<and> statusOf (step asciiToLowerCase (DownloadChanged 5 None (Some (Some complete)) None)
                 progressExample) 1 = Some Complete"
proof -
  have d: "distinct (map fst (downloadState progressExample))"
    by (simp add: progressExample_state)
  have s: "statusOf progressExample 1 = Some InProgress"
    by (simp add: progressExample_state statusOf_def statusIn_def mapGet_def)
  have p: "statusOf (pollTabProgress 1 (Result preparing (Num 100)) progressExample) 1
             = Some InProgress"
    using poller_never_completes[OF d, of 1 "Result preparing (Num 100)" 1] s by blast
  have c: "statusOf (step asciiToLowerCase (DownloadChanged 5 None (Some (Some complete)) None)
                       progressExample) 1 = Some Complete"
    by (simp add: progressExample_state onChanged_def filenameDetermined_def truthyString_def
        stateChanged_def findBound_def statusOf_def statusIn_def mapGet_def updateTabState_def)
  show ?thesis
    using d s p c by (simp add: progressExample_state getProgressFromPage_def)
qed

section \<open>The invariant of the reachable states\<close>

lemma noNewBinding_refl: "noNewBinding ds ds"
  by (simp add: noNewBinding_def)

lemma noNewBinding_trans:
  "noNewBinding ds ds1 \<Longrightarrow> noNewBinding ds1 ds2 \<Longrightarrow> noNewBinding ds ds2"
  unfolding noNewBinding_def by metis

lemma noNewBinding_updateTabState: "noNewBinding ds (updateTabState t st det ds)"
  unfolding noNewBinding_def
  by (auto simp: mapGet_updateTabState defaultState_def emptyState_def
      split: if_splits option.splits)

lemma noNewBinding_unbound: "downloadId v = None \<Longrightarrow> noNewBinding ds (mapSet ds t v)"
  unfolding noNewBinding_def by (auto simp: mapGet_mapSet split: if_splits)

lemma noNewBinding_same:
  "mapGet ds t = Some s \<Longrightarrow> downloadId v = downloadId s \<Longrightarrow> noNewBinding ds (mapSet ds t v)"
  unfolding noNewBinding_def by (auto simp: mapGet_mapSet split: if_splits)

lemma mapGet_filter:
  assumes "distinct (map fst ds)" and "mapGet (filter P ds) k = Some v"
  shows "mapGet ds k = Some v"
proof -
  have "(k, v) \<in> set (filter P ds)"
    using assms(2) unfolding mapGet_def by (rule map_of_SomeD)
  then have "(k, v) \<in> set ds" by simp
  then show ?thesis using assms(1) by (simp add: mapGet_Some_iff)
qed

lemma noNewBinding_filter:
  assumes "distinct (map fst ds)"
  shows "noNewBinding ds (filter P ds)"
  unfolding noNewBinding_def
proof (intro allI impI)
  fix t s'
  assume "mapGet (filter P ds) t = Some s' \<and> downloadId s' \<noteq> None"
  then have "mapGet ds t = Some s'"
    using mapGet_filter[OF assms, of P t s'] by simp
  then show "\<exists>s. mapGet ds t = Some s \<and> downloadId s = downloadId s'" by simp
qed

lemma boundIds_noNewBinding: "noNewBinding ds ds' \<Longrightarrow> boundIds ds' \<subseteq> boundIds ds"
  unfolding noNewBinding_def boundIds_def by fastforce

lemma injective_noNewBinding:
  assumes "noNewBinding ds ds'" and "bindingInjective ds"
  shows "bindingInjective ds'"
  unfolding bindingInjective_def
proof (intro allI impI)
  fix t1 s1 t2 s2
  assume a: "mapGet ds' t1 = Some s1 \<and> mapGet ds' t2 = Some s2
             \<and> downloadId s1 \<noteq> None \<and> downloadId s1 = downloadId s2"
  then obtain r1 where r1: "mapGet ds t1 = Some r1" "downloadId r1 = downloadId s1"
    using assms(1) unfolding noNewBinding_def by blast
  from a obtain r2 where r2: "mapGet ds t2 = Some r2" "downloadId r2 = downloadId s2"
    using assms(1) unfolding noNewBinding_def by metis
  show "t1 = t2"
    using assms(2) r1 r2 a unfolding bindingInjective_def by metis
qed

lemma inv_noNewBinding:
  assumes "workerInv created w"
    and "distinct (map fst (downloadState w'))"
    and "noNewBinding (downloadState w) (downloadState w')"
    and "\<forall>d x. unmatchedDownloads w' d = Some x \<longrightarrow> unmatchedDownloads w d = Some x"
  shows "workerInv created w'"
proof -
  have sub: "boundIds (downloadState w') \<subseteq> boundIds (downloadState w)"
    using assms(3) by (rule boundIds_noNewBinding)
  have inj: "bindingInjective (downloadState w')"
    using assms(3) assms(1) injective_noNewBinding unfolding workerInv_def by blast
  have dom: "dom (unmatchedDownloads w') \<subseteq> created"
    using assms(1,4) unfolding workerInv_def by auto
  have par: "\<forall>d fname u. unmatchedDownloads w' d = Some (fname, u) \<and> \<not> truthyString fname
               \<longrightarrow> d \<notin> boundIds (downloadState w')"
    using assms(1,4) sub unfolding workerInv_def by blast
  show ?thesis
    using assms(1,2) sub inj dom par unfolding workerInv_def by auto
qed

lemma candidate_unbound:
  assumes "workerInv created w" and "mapGet (downloadState w) t = Some s"
    and "\<not> truthyId (downloadId s)"
  shows "downloadId s = None"
proof (cases "downloadId s")
  case None
  then show ?thesis .
next
  case (Some d)
  then have "d \<in> boundIds (downloadState w)"
    using assms(2) by (auto simp: boundIds_def)
  then have "d \<noteq> 0" using assms(1) unfolding workerInv_def by auto
  then show ?thesis using assms(3) Some by (simp add: truthyId_def)
qed

lemma boundIds_bind:
  "boundIds (mapSet ds t (s\<lparr>downloadId := Some d\<rparr>)) \<subseteq> insert d (boundIds ds)"
  unfolding boundIds_def by (auto simp: mapGet_mapSet split: if_splits)

lemma injective_bind:
  assumes "bindingInjective ds" and "d \<notin> boundIds ds"
  shows "bindingInjective (mapSet ds t (s\<lparr>downloadId := Some d\<rparr>))"
  unfolding bindingInjective_def
proof (intro allI impI)
  fix t1 s1 t2 s2
  let ?ds' = "mapSet ds t (s\<lparr>downloadId := Some d\<rparr>)"
  assume a: "mapGet ?ds' t1 = Some s1 \<and> mapGet ?ds' t2 = Some s2
             \<and> downloadId s1 \<noteq> None \<and> downloadId s1 = downloadId s2"
  have other: "downloadId r \<noteq> Some d" if "mapGet ds k = Some r" for k r
    using assms(2) that by (auto simp: boundIds_def)
  show "t1 = t2"
  proof (cases "t1 = t")
    case True
    then have "s1 = s\<lparr>downloadId := Some d\<rparr>" using a by (simp add: mapGet_mapSet)
    then have "downloadId s1 = Some d" by simp
    then have "downloadId s2 = Some d" using a by simp
    then have "t2 = t" using a other by (auto simp: mapGet_mapSet split: if_splits)
    then show ?thesis using True by simp
  next
    case False
    then have g1: "mapGet ds t1 = Some s1" using a by (simp add: mapGet_mapSet)
    then have "downloadId s2 \<noteq> Some d" using a other by metis
    then have "t2 \<noteq> t" using a by (auto simp: mapGet_mapSet)
    then have "mapGet ds t2 = Some s2" using a by (simp add: mapGet_mapSet)
    then show ?thesis using g1 a assms(1) unfolding bindingInjective_def by metis
  qed
qed

lemma inv_bind:
  assumes "workerInv created w" and "created \<subseteq> created'" and "0 \<notin> created'"
    and "d \<in> created'" and "d \<notin> boundIds (downloadState w)"
    and "downloadState w' = mapSet (downloadState w) t (s\<lparr>downloadId := Some d\<rparr>)"
    and "\<forall>d' fname u. unmatchedDownloads w' d' = Some (fname, u)
           \<longrightarrow> d' \<in> created'
               \<and> (\<not> truthyString fname \<longrightarrow> d' \<noteq> d \<and> d' \<notin> boundIds (downloadState w))"
  shows "workerInv created' w'"
proof -
  have dist: "distinct (map fst (downloadState w'))"
    using assms(1,6) unfolding workerInv_def by (simp add: distinct_mapSet)
  have inj: "bindingInjective (downloadState w')"
    using assms(1,5,6) injective_bind unfolding workerInv_def by simp
  have sub: "boundIds (downloadState w') \<subseteq> insert d (boundIds (downloadState w))"
    using assms(6) boundIds_bind by simp
  then have sub': "boundIds (downloadState w') \<subseteq> created'"
    using assms(1,2,4) unfolding workerInv_def by auto
  have dom: "dom (unmatchedDownloads w') \<subseteq> created'"
    using assms(7) by auto
  have par: "\<forall>d' fname u. unmatchedDownloads w' d' = Some (fname, u) \<and> \<not> truthyString fname
               \<longrightarrow> d' \<notin> boundIds (downloadState w')"
    using assms(7) sub by blast
  show ?thesis
    using dist inj sub' assms(3) dom par unfolding workerInv_def by auto
qed

lemma inv_unmatched:
  assumes "workerInv created w" and "created \<subseteq> created'" and "0 \<notin> created'"
    and "downloadState w' = downloadState w"
    and "\<forall>d' fname u. unmatchedDownloads w' d' = Some (fname, u)
           \<longrightarrow> d' \<in> created'
               \<and> (\<not> truthyString fname \<longrightarrow> d' \<notin> boundIds (downloadState w))"
  shows "workerInv created' w'"
proof -
  have dom: "dom (unmatchedDownloads w') \<subseteq> created'"
    using assms(5) by auto
  have par: "\<forall>d' fname u. unmatchedDownloads w' d' = Some (fname, u) \<and> \<not> truthyString fname
               \<longrightarrow> d' \<notin> boundIds (downloadState w')"
    using assms(4,5) by simp
  have "boundIds (downloadState w') \<subseteq> created'"
    using assms(1,2,4) unfolding workerInv_def by auto
  then show ?thesis
    using assms(1,3,4) dom par unfolding workerInv_def by auto
qed

lemma inv_unmatched_entries:
  assumes "workerInv created w" and "unmatchedDownloads w d = Some (fname, u)"
  shows "d \<in> created" and "\<not> truthyString fname \<Longrightarrow> d \<notin> boundIds (downloadState w)"
  using assms unfolding workerInv_def by auto


lemma match_refines:
  assumes "workerInv created w"
  shows "matchDownloadToTab lc d fn (downloadState w) = (False, downloadState w)
       \<or> (\<exists>t s. mapGet (downloadState w) t = Some s \<and> status s = Some InProgress
            \<and> downloadId s = None
            \<and> matchDownloadToTab lc d fn (downloadState w)
                = (True, mapSet (downloadState w) t (s\<lparr>downloadId := Some d\<rparr>)))"
proof -
  have dist: "distinct (map fst (downloadState w))"
    using assms unfolding workerInv_def by simp
  from matchDownloadToTab_cases[OF dist, of lc d fn] show ?thesis
  proof (elim disjE conjE exE)
    assume "matchDownloadToTab lc d fn (downloadState w) = (False, downloadState w)"
    then show ?thesis by simp
  next
    fix t s
    assume g: "mapGet (downloadState w) t = Some s" and c: "isCandidate s"
      and m: "matchDownloadToTab lc d fn (downloadState w)
                = (True, mapSet (downloadState w) t (s\<lparr>downloadId := Some d\<rparr>))"
    have "downloadId s = None"
      using candidate_unbound[OF assms g] c by (simp add: isCandidate_def)
    moreover have "status s = Some InProgress" using c by (simp add: isCandidate_def)
    ultimately show ?thesis using g m by blast
  qed
qed

lemma inv_onCreated:
  assumes "workerInv created w" and "d \<notin> created" and "d \<noteq> 0"
  shows "workerInv (insert d created) (onCreated lc d fname u w)"
proof -
  have zero: "0 \<notin> insert d created"
    using assms(1,3) unfolding workerInv_def by auto
  have unbound: "d \<notin> boundIds (downloadState w)"
    using assms(1,2) unfolding workerInv_def by auto
  have old: "d' \<in> insert d created
             \<and> (\<not> truthyString f \<longrightarrow> d' \<noteq> d \<and> d' \<notin> boundIds (downloadState w))"
    if "unmatchedDownloads w d' = Some (f, u')" for d' f u'
    using inv_unmatched_entries[OF assms(1) that] assms(2) by auto
  show ?thesis
  proof (cases "truthyString fname")
    case False
    then have st: "onCreated lc d fname u w
                     = w\<lparr>unmatchedDownloads := (unmatchedDownloads w)(d \<mapsto> (None, u))\<rparr>"
      by (simp add: onCreated_def)
    show ?thesis
    proof (rule inv_unmatched[OF assms(1) _ zero])
      show "created \<subseteq> insert d created" by auto
      show "downloadState (onCreated lc d fname u w) = downloadState w" by (simp add: st)
      show "\<forall>d' f u'. unmatchedDownloads (onCreated lc d fname u w) d' = Some (f, u')
              \<longrightarrow> d' \<in> insert d created
                  \<and> (\<not> truthyString f \<longrightarrow> d' \<notin> boundIds (downloadState w))"
        using old unbound by (auto simp: st)
    qed
  next
    case True
    from match_refines[OF assms(1), of lc d "the fname"] show ?thesis
    proof (elim disjE conjE exE)
      assume m: "matchDownloadToTab lc d (the fname) (downloadState w) = (False, downloadState w)"
      then have st: "onCreated lc d fname u w
                       = w\<lparr>downloadState := downloadState w,
                           unmatchedDownloads := (unmatchedDownloads w)(d \<mapsto> (fname, u))\<rparr>"
        using True by (simp add: onCreated_def)
      show ?thesis
      proof (rule inv_unmatched[OF assms(1) _ zero])
        show "created \<subseteq> insert d created" by auto
        show "downloadState (onCreated lc d fname u w) = downloadState w" by (simp add: st)
        show "\<forall>d' f u'. unmatchedDownloads (onCreated lc d fname u w) d' = Some (f, u')
                \<longrightarrow> d' \<in> insert d created
                    \<and> (\<not> truthyString f \<longrightarrow> d' \<notin> boundIds (downloadState w))"
          using old True by (auto simp: st)
      qed
    next
      fix t s
      assume m: "matchDownloadToTab lc d (the fname) (downloadState w)
                   = (True, mapSet (downloadState w) t (s\<lparr>downloadId := Some d\<rparr>))"
      then have st: "onCreated lc d fname u w
                       = w\<lparr>downloadState := mapSet (downloadState w) t (s\<lparr>downloadId := Some d\<rparr>)\<rparr>"
        using True by (simp add: onCreated_def)
      show ?thesis
      proof (rule inv_bind[OF assms(1) _ zero _ unbound])
        show "created \<subseteq> insert d created" by auto
        show "d \<in> insert d created" by simp
        show "downloadState (onCreated lc d fname u w)
                = mapSet (downloadState w) t (s\<lparr>downloadId := Some d\<rparr>)"
          by (simp add: st)
        show "\<forall>d' f u'. unmatchedDownloads (onCreated lc d fname u w) d' = Some (f, u')
                \<longrightarrow> d' \<in> insert d created
                    \<and> (\<not> truthyString f \<longrightarrow> d' \<noteq> d \<and> d' \<notin> boundIds (downloadState w))"
          using old by (auto simp: st)
      qed
    qed
  qed
qed

lemma inv_filenameDetermined:
  assumes "workerInv created w"
  shows "workerInv created (filenameDetermined lc d current w)"
proof (cases "truthyString current")
  case False
  then show ?thesis using assms by (simp add: filenameDetermined_def)
next
  case True
  show ?thesis
  proof (cases "unmatchedDownloads w d")
    case None
    then show ?thesis using assms True by (simp add: filenameDetermined_def)
  next
    case (Some x)
    obtain fname u where x: "x = (fname, u)" by (cases x)
    show ?thesis
    proof (cases "truthyString fname")
      case tf: True
      then show ?thesis using assms True Some x by (simp add: filenameDetermined_def)
    next
      case False
      have zero: "0 \<notin> created" using assms unfolding workerInv_def by simp
      have cr: "d \<in> created" and unbound: "d \<notin> boundIds (downloadState w)"
        using inv_unmatched_entries[OF assms] Some x False by auto
      have old: "d' \<in> created
                 \<and> (\<not> truthyString f \<longrightarrow> d' \<notin> boundIds (downloadState w))"
        if "unmatchedDownloads w d' = Some (f, u')" for d' f u'
        using inv_unmatched_entries[OF assms that] by auto
      from match_refines[OF assms, of lc d "the current"] show ?thesis
      proof (elim disjE conjE exE)
        assume m: "matchDownloadToTab lc d (the current) (downloadState w)
                     = (False, downloadState w)"
        then have st: "filenameDetermined lc d current w
                         = w\<lparr>downloadState := downloadState w,
                             unmatchedDownloads := (unmatchedDownloads w)(d \<mapsto> (current, u))\<rparr>"
          using True Some x False by (simp add: filenameDetermined_def)
        show ?thesis
        proof (rule inv_unmatched[OF assms _ zero])
          show "created \<subseteq> created" by simp
          show "downloadState (filenameDetermined lc d current w) = downloadState w"
            by (simp add: st)
          show "\<forall>d' f u'. unmatchedDownloads (filenameDetermined lc d current w) d' = Some (f, u')
                  \<longrightarrow> d' \<in> created
                      \<and> (\<not> truthyString f \<longrightarrow> d' \<notin> boundIds (downloadState w))"
            using old cr True by (auto simp: st)
        qed
      next
        fix t s
        assume m: "matchDownloadToTab lc d (the current) (downloadState w)
                     = (True, mapSet (downloadState w) t (s\<lparr>downloadId := Some d\<rparr>))"
        then have st: "filenameDetermined lc d current w
                         = w\<lparr>downloadState := mapSet (downloadState w) t (s\<lparr>downloadId := Some d\<rparr>),
                             unmatchedDownloads := (unmatchedDownloads w)(d := None)\<rparr>"
          using True Some x False by (simp add: filenameDetermined_def)
        show ?thesis
        proof (rule inv_bind[OF assms _ zero cr unbound])
          show "created \<subseteq> created" by simp
          show "downloadState (filenameDetermined lc d current w)
                  = mapSet (downloadState w) t (s\<lparr>downloadId := Some d\<rparr>)"
            by (simp add: st)
          show "\<forall>d' f u'. unmatchedDownloads (filenameDetermined lc d current w) d' = Some (f, u')
                  \<longrightarrow> d' \<in> created
                      \<and> (\<not> truthyString f \<longrightarrow> d' \<noteq> d \<and> d' \<notin> boundIds (downloadState w))"
            using old by (auto simp: st)
        qed
      qed
    qed
  qed
qed


lemma inv_stateChanged:
  assumes "workerInv created w"
  shows "workerInv created (stateChanged lc d current err w)"
proof -
  have dist: "distinct (map fst (downloadState w))"
    using assms unfolding workerInv_def by simp
  show ?thesis
  proof (cases "findBound (downloadState w) d")
    case (Some t)
    show ?thesis
    proof (rule inv_noNewBinding[OF assms])
      show "distinct (map fst (downloadState (stateChanged lc d current err w)))"
        using Some dist by (simp add: stateChanged_def distinct_updateTabState)
      show "noNewBinding (downloadState w) (downloadState (stateChanged lc d current err w))"
        using Some by (simp add: stateChanged_def noNewBinding_updateTabState noNewBinding_refl)
      show "\<forall>d' x. unmatchedDownloads (stateChanged lc d current err w) d' = Some x
              \<longrightarrow> unmatchedDownloads w d' = Some x"
        using Some by (auto simp: stateChanged_def split: if_splits)
    qed
  next
    case None
    show ?thesis
    proof (cases "current = Some complete \<and> (\<exists>fname u. unmatchedDownloads w d = Some (fname, u)
                    \<and> truthyString fname)")
      case False
      then have "stateChanged lc d current err w = w"
        using None by (auto simp: stateChanged_def split: option.splits)
      then show ?thesis using assms by simp
    next
      case True
      then obtain fname u where cur: "current = Some complete"
        and e: "unmatchedDownloads w d = Some (fname, u)" and tf: "truthyString fname"
        by blast
      have cr: "d \<in> created" using inv_unmatched_entries(1)[OF assms e] .
      have unbound: "d \<notin> boundIds (downloadState w)" using None by (rule findBound_None)
      have zero: "0 \<notin> created" using assms unfolding workerInv_def by simp
      have old: "d' \<in> created
                 \<and> (\<not> truthyString f \<longrightarrow> d' \<notin> boundIds (downloadState w))"
        if "unmatchedDownloads w d' = Some (f, u')" for d' f u'
        using inv_unmatched_entries[OF assms that] by auto
      from match_refines[OF assms, of lc d "the fname"] show ?thesis
      proof (elim disjE conjE exE)
        assume m: "matchDownloadToTab lc d (the fname) (downloadState w)
                     = (False, downloadState w)"
        then have st: "stateChanged lc d current err w
                         = w\<lparr>downloadState := downloadState w,
                             unmatchedDownloads := (unmatchedDownloads w)(d := None)\<rparr>"
          using None cur e tf by (simp add: stateChanged_def)
        show ?thesis
        proof (rule inv_noNewBinding[OF assms])
          show "distinct (map fst (downloadState (stateChanged lc d current err w)))"
            using dist by (simp add: st)
          show "noNewBinding (downloadState w) (downloadState (stateChanged lc d current err w))"
            by (simp add: st noNewBinding_refl)
          show "\<forall>d' x. unmatchedDownloads (stateChanged lc d current err w) d' = Some x
                  \<longrightarrow> unmatchedDownloads w d' = Some x"
            by (auto simp: st split: if_splits)
        qed
      next
        fix t s
        let ?ds' = "mapSet (downloadState w) t (s\<lparr>downloadId := Some d\<rparr>)"
        let ?wb = "w\<lparr>downloadState := ?ds',
                     unmatchedDownloads := (unmatchedDownloads w)(d := None)\<rparr>"
        assume m: "matchDownloadToTab lc d (the fname) (downloadState w) = (True, ?ds')"
        have invb: "workerInv created ?wb"
        proof (rule inv_bind[OF assms _ zero cr unbound])
          show "created \<subseteq> created" by simp
          show "downloadState ?wb = ?ds'" by simp
          show "\<forall>d' f u'. unmatchedDownloads ?wb d' = Some (f, u')
                  \<longrightarrow> d' \<in> created
                      \<and> (\<not> truthyString f \<longrightarrow> d' \<noteq> d \<and> d' \<notin> boundIds (downloadState w))"
            using old by auto
        qed
        have distb: "distinct (map fst ?ds')" using dist by (rule distinct_mapSet)
        have reg: "downloadState (stateChanged lc d current err w) = ?ds'
                   \<or> (\<exists>t'. downloadState (stateChanged lc d current err w)
                             = updateTabState t' Complete (Some (Text [])) ?ds')"
          using None cur e tf m by (auto simp: stateChanged_def Let_def split: option.splits)
        have unm: "unmatchedDownloads (stateChanged lc d current err w)
                     = (unmatchedDownloads w)(d := None)"
          using None cur e tf m by (auto simp: stateChanged_def Let_def split: option.splits)
        show ?thesis
        proof (rule inv_noNewBinding[OF invb])
          show "distinct (map fst (downloadState (stateChanged lc d current err w)))"
            using reg distb distinct_updateTabState by auto
          show "noNewBinding (downloadState ?wb)
                  (downloadState (stateChanged lc d current err w))"
            using reg noNewBinding_updateTabState noNewBinding_refl by auto
          show "\<forall>d' x. unmatchedDownloads (stateChanged lc d current err w) d' = Some x
                  \<longrightarrow> unmatchedDownloads ?wb d' = Some x"
            by (simp add: unm)
        qed
      qed
    qed
  qed
qed

lemma inv_onChanged:
  assumes "workerInv created w"
  shows "workerInv created (onChanged lc d fname st err w)"
  using inv_filenameDetermined[OF assms, of lc d fname] inv_stateChanged
  by (cases st) (simp_all add: onChanged_def)

lemma poll_registry:
  assumes "distinct (map fst (downloadState w))"
  shows "distinct (map fst (downloadState (pollTabProgress t outcome w)))
         \<and> noNewBinding (downloadState w) (downloadState (pollTabProgress t outcome w))"
proof (cases outcome)
  case (Result st prog)
  show ?thesis
  proof (cases "mapGet (downloadState w) t")
    case None
    then show ?thesis using Result assms by (simp add: pollTabProgress_def noNewBinding_refl)
  next
    case (Some cur)
    let ?ds1 = "mapSet (downloadState w) t (cur\<lparr>progress := Some prog\<rparr>)"
    have n1: "noNewBinding (downloadState w) ?ds1"
      using Some by (simp add: noNewBinding_same)
    have d1: "distinct (map fst ?ds1)" using assms by (rule distinct_mapSet)
    have n2: "noNewBinding (downloadState w) (updateTabState t s det ?ds1)" for s det
      using n1 noNewBinding_updateTabState by (rule noNewBinding_trans)
    have d2: "distinct (map fst (updateTabState t s det ?ds1))" for s det
      using d1 by (rule distinct_updateTabState)
    have n3: "noNewBinding (downloadState w)
                (case mapGet ds2 t of None \<Rightarrow> ds2
                 | Some s \<Rightarrow> mapSet ds2 t (s\<lparr>hadProgressBar := Some True\<rparr>))"
      if "noNewBinding (downloadState w) ds2" for ds2
    proof (cases "mapGet ds2 t")
      case None
      then show ?thesis using that by simp
    next
      case (Some s)
      have "noNewBinding ds2 (mapSet ds2 t (s\<lparr>hadProgressBar := Some True\<rparr>))"
        using Some by (simp add: noNewBinding_same)
      then show ?thesis using that Some noNewBinding_trans by auto
    qed
    have d3: "distinct (map fst (case mapGet ds2 t of None \<Rightarrow> ds2
                 | Some s \<Rightarrow> mapSet ds2 t (s\<lparr>hadProgressBar := Some True\<rparr>)))"
      if "distinct (map fst ds2)" for ds2
      using that by (cases "mapGet ds2 t") (simp_all add: distinct_mapSet)
    show ?thesis
      using Result Some n1 d1 n2 d2 n3[OF n2] d3[OF d2]
      by (simp add: pollTabProgress_def Let_def)
  qed
next
  case NoResult
  then show ?thesis using assms by (simp add: pollTabProgress_def noNewBinding_refl)
next
  case (Failed tabExists)
  then show ?thesis using assms by (simp add: pollTabProgress_def noNewBinding_refl)
qed

lemma quiet_registry:
  assumes "distinct (map fst (downloadState w))"
    and "\<forall>d fname u. e \<noteq> DownloadCreated d fname u"
    and "\<forall>d fname st err. e \<noteq> DownloadChanged d fname st err"
  shows "distinct (map fst (downloadState (step lc e w)))
         \<and> noNewBinding (downloadState w) (downloadState (step lc e w))
         \<and> unmatchedDownloads (step lc e w) = unmatchedDownloads w"
proof (cases e)
  case (DownloadCreated d fname u)
  then show ?thesis using assms(2) by simp
next
  case (DownloadChanged d fname st err)
  then show ?thesis using assms(3) by simp
next
  case (Polled t outcome)
  have "unmatchedDownloads (pollTabProgress t outcome w) = unmatchedDownloads w"
    by (cases outcome) (simp_all add: pollTabProgress_def Let_def split: option.splits)
  then show ?thesis using Polled poll_registry[OF assms(1), of t outcome] by simp
next
  case (TabStarted t u ti now)
  then show ?thesis using assms(1)
    by (simp add: distinct_mapSet noNewBinding_unbound freshState_def)
next
  case (TabRetried t u ti now)
  then show ?thesis using assms(1)
    by (simp add: distinct_mapSet noNewBinding_unbound freshState_def)
next
  case (TabMonitored t)
  then show ?thesis using assms(1) by (simp add: noNewBinding_refl)
next
  case (TabFailed t msg)
  then show ?thesis using assms(1)
    by (simp add: distinct_updateTabState noNewBinding_updateTabState)
next
  case (DownloadClicked t)
  let ?st = "case mapGet (downloadState w) t of Some s \<Rightarrow> s | None \<Rightarrow> emptyState"
  let ?ds1 = "mapSet (downloadState w) t (?st\<lparr>hadProgressBar := Some False\<rparr>)"
  have n1: "noNewBinding (downloadState w) ?ds1"
    by (cases "mapGet (downloadState w) t")
       (simp_all add: noNewBinding_unbound noNewBinding_same emptyState_def)
  have "noNewBinding (downloadState w) (updateTabState t InProgress (Some (Text clickedText)) ?ds1)"
    using n1 noNewBinding_updateTabState by (rule noNewBinding_trans)
  then show ?thesis using DownloadClicked assms(1)
    by (simp add: downloadClicked_def Let_def distinct_mapSet distinct_updateTabState)
next
  case (DownloadProgress t prog)
  let ?ds1 = "case mapGet (downloadState w) t of None \<Rightarrow> downloadState w
              | Some state \<Rightarrow> mapSet (downloadState w) t
                  (state\<lparr>progress := Some prog, hadProgressBar := Some True\<rparr>)"
  have n1: "noNewBinding (downloadState w) ?ds1"
    by (cases "mapGet (downloadState w) t") (simp_all add: noNewBinding_refl noNewBinding_same)
  have d1: "distinct (map fst ?ds1)"
    using assms(1) by (cases "mapGet (downloadState w) t") (simp_all add: distinct_mapSet)
  have "noNewBinding (downloadState w) (updateTabState t InProgress (Some (Percent prog)) ?ds1)"
    using n1 noNewBinding_updateTabState by (rule noNewBinding_trans)
  then show ?thesis using DownloadProgress d1
    by (simp add: downloadProgress_def Let_def distinct_updateTabState)
next
  case (DownloadError t msg)
  then show ?thesis using assms(1)
    by (simp add: downloadError_def distinct_updateTabState noNewBinding_updateTabState)
next
  case ClearCompleted
  then show ?thesis using assms(1)
    by (simp add: clearCompleted_def noNewBinding_filter distinct_map_filter)
qed

lemma reachable_inv: "reachable lc created w \<Longrightarrow> workerInv created w"
proof (induction rule: reachable.induct)
  case reachable_initial
  show ?case
    by (simp add: workerInv_def initial_def bindingInjective_def boundIds_def mapGet_def)
next
  case (reachable_created created w dlId fname u)
  then show ?case using inv_onCreated by simp
next
  case (reachable_step created w e)
  show ?case
  proof (cases "\<exists>d fname st err. e = DownloadChanged d fname st err")
    case True
    then show ?thesis using reachable_step.IH inv_onChanged by auto
  next
    case False
    have dist: "distinct (map fst (downloadState w))"
      using reachable_step.IH unfolding workerInv_def by simp
    from quiet_registry[OF dist reachable_step.hyps(2), of lc] False
    have q: "distinct (map fst (downloadState (step lc e w)))"
      "noNewBinding (downloadState w) (downloadState (step lc e w))"
      "unmatchedDownloads (step lc e w) = unmatchedDownloads w"
      by auto
    show ?thesis
      using inv_noNewBinding[OF reachable_step.IH q(1) q(2)] q(3) by simp
  qed
qed


section \<open>Binding is immutable and injective\<close>

lemma keeping_refl: "bindsOnlyUnboundKeepingStatus ds ds"
  by (simp add: bindsOnlyUnboundKeepingStatus_def)

lemma keeping_weaken: "bindsOnlyUnboundKeepingStatus ds ds' \<Longrightarrow> bindsOnlyUnbound ds ds'"
  unfolding bindsOnlyUnboundKeepingStatus_def bindsOnlyUnbound_def by blast

lemma bindsOnlyUnbound_refl: "bindsOnlyUnbound ds ds"
  by (simp add: bindsOnlyUnbound_def)

lemma bindsOnlyUnbound_updateTabState: "bindsOnlyUnbound ds (updateTabState t st det ds)"
  unfolding bindsOnlyUnbound_def by (auto simp: mapGet_updateTabState)

lemma bindsOnlyUnbound_compose:
  assumes "bindsOnlyUnboundKeepingStatus ds ds1" and "bindsOnlyUnbound ds1 ds2"
  shows "bindsOnlyUnbound ds ds2"
  unfolding bindsOnlyUnbound_def
proof (intro allI impI)
  fix t s
  assume g: "mapGet ds t = Some s"
  then obtain s1 where s1: "mapGet ds1 t = Some s1" "status s1 = status s"
    "downloadId s \<noteq> None \<longrightarrow> downloadId s1 = downloadId s"
    "downloadId s1 \<noteq> downloadId s \<longrightarrow> status s = Some InProgress \<and> downloadId s = None"
    using assms(1) unfolding bindsOnlyUnboundKeepingStatus_def by blast
  then obtain s2 where s2: "mapGet ds2 t = Some s2"
    "downloadId s1 \<noteq> None \<longrightarrow> downloadId s2 = downloadId s1"
    "downloadId s2 \<noteq> downloadId s1 \<longrightarrow> status s1 = Some InProgress \<and> downloadId s1 = None"
    using assms(2) unfolding bindsOnlyUnbound_def by blast
  have "downloadId s \<noteq> None \<longrightarrow> downloadId s2 = downloadId s"
    using s1(3) s2(2) by auto
  moreover have "downloadId s2 \<noteq> downloadId s \<longrightarrow> status s = Some InProgress \<and> downloadId s = None"
    using s1(2,4) s2(3) by metis
  ultimately show "\<exists>s'. mapGet ds2 t = Some s'
      \<and> (downloadId s \<noteq> None \<longrightarrow> downloadId s' = downloadId s)
      \<and> (downloadId s' \<noteq> downloadId s \<longrightarrow> status s = Some InProgress \<and> downloadId s = None)"
    using s2(1) by blast
qed

lemma keeping_match:
  assumes "workerInv created w"
  shows "bindsOnlyUnboundKeepingStatus (downloadState w)
           (snd (matchDownloadToTab lc d fn (downloadState w)))"
  using match_refines[OF assms, of lc d fn]
proof (elim disjE conjE exE)
  assume "matchDownloadToTab lc d fn (downloadState w) = (False, downloadState w)"
  then show ?thesis by (simp add: keeping_refl)
next
  fix t s
  assume g: "mapGet (downloadState w) t = Some s" and st: "status s = Some InProgress"
    and un: "downloadId s = None"
    and m: "matchDownloadToTab lc d fn (downloadState w)
              = (True, mapSet (downloadState w) t (s\<lparr>downloadId := Some d\<rparr>))"
  show ?thesis
    unfolding bindsOnlyUnboundKeepingStatus_def
    using g st un by (auto simp: m mapGet_mapSet)
qed

lemma keeping_onCreated:
  assumes "workerInv created w"
  shows "bindsOnlyUnboundKeepingStatus (downloadState w) (downloadState (onCreated lc d fname u w))"
proof -
  have "downloadState (onCreated lc d fname u w) = downloadState w
        \<or> downloadState (onCreated lc d fname u w)
            = snd (matchDownloadToTab lc d (the fname) (downloadState w))"
    by (auto simp: onCreated_def split: prod.splits)
  then show ?thesis using keeping_match[OF assms] keeping_refl by auto
qed

lemma keeping_filenameDetermined:
  assumes "workerInv created w"
  shows "bindsOnlyUnboundKeepingStatus (downloadState w)
           (downloadState (filenameDetermined lc d current w))"
  using filenameDetermined_registry[of lc d current w] keeping_match[OF assms] keeping_refl
  by auto

lemma bindsOnlyUnbound_stateChanged:
  assumes "workerInv created w"
  shows "bindsOnlyUnbound (downloadState w) (downloadState (stateChanged lc d current err w))"
proof (cases "findBound (downloadState w) d")
  case (Some t)
  then show ?thesis
    by (simp add: stateChanged_def bindsOnlyUnbound_refl bindsOnlyUnbound_updateTabState)
next
  case None
  show ?thesis
  proof (cases "current = Some complete \<and> (\<exists>fname u. unmatchedDownloads w d = Some (fname, u)
                  \<and> truthyString fname)")
    case False
    then have "stateChanged lc d current err w = w"
      using None by (auto simp: stateChanged_def split: option.splits)
    then show ?thesis by (simp add: bindsOnlyUnbound_refl)
  next
    case True
    then obtain fname u where cur: "current = Some complete"
      and e: "unmatchedDownloads w d = Some (fname, u)" and tf: "truthyString fname"
      by blast
    let ?ds' = "snd (matchDownloadToTab lc d (the fname) (downloadState w))"
    have k: "bindsOnlyUnboundKeepingStatus (downloadState w) ?ds'"
      using assms by (rule keeping_match)
    have "downloadState (stateChanged lc d current err w) = ?ds'
          \<or> (\<exists>t'. downloadState (stateChanged lc d current err w)
                    = updateTabState t' Complete (Some (Text [])) ?ds')"
      using None cur e tf
      by (auto simp: stateChanged_def Let_def split: option.splits prod.splits)
    then show ?thesis
      using bindsOnlyUnbound_compose[OF k bindsOnlyUnbound_updateTabState]
        keeping_weaken[OF k] by auto
  qed
qed

lemma bindsOnlyUnbound_download_event:
  assumes "workerInv created w" and "isDownloadEvent e"
  shows "bindsOnlyUnbound (downloadState w) (downloadState (step lc e w))"
proof (cases e)
  case (DownloadCreated d fname u)
  then show ?thesis using keeping_weaken[OF keeping_onCreated[OF assms(1)]] by simp
next
  case (DownloadChanged d fname st err)
  let ?w1 = "filenameDetermined lc d fname w"
  have k: "bindsOnlyUnboundKeepingStatus (downloadState w) (downloadState ?w1)"
    using assms(1) by (rule keeping_filenameDetermined)
  have i1: "workerInv created ?w1" using assms(1) by (rule inv_filenameDetermined)
  show ?thesis
  proof (cases st)
    case None
    then show ?thesis using DownloadChanged keeping_weaken[OF k] by (simp add: onChanged_def)
  next
    case (Some current)
    have "bindsOnlyUnbound (downloadState w) (downloadState (stateChanged lc d current err ?w1))"
      using k bindsOnlyUnbound_stateChanged[OF i1] by (rule bindsOnlyUnbound_compose)
    then show ?thesis using DownloadChanged Some by (simp add: onChanged_def)
  qed
qed (use assms(2) in simp_all)

text \<open>
  C1. In every state that the worker reaches from the empty one (the download subsystem
  numbering its downloads from 1 and reporting each as created once), no two tabs hold the
  same download id. In every step taken on a notification of the download subsystem, an
  entry whose download id is set keeps it, and an entry whose download id changes was in
  progress and had none.
\<close>

theorem binding_immutable_injective:
  assumes "reachable lc created w"
  shows "(\<forall>t1 s1 t2 s2. mapGet (downloadState w) t1 = Some s1
             \<and> mapGet (downloadState w) t2 = Some s2
             \<and> downloadId s1 \<noteq> None \<and> downloadId s1 = downloadId s2 \<longrightarrow> t1 = t2)
       \<and> (isDownloadEvent e \<longrightarrow>
            (\<forall>t s. mapGet (downloadState w) t = Some s \<longrightarrow>
               (\<exists>s'. mapGet (downloadState (step lc e w)) t = Some s'
                  \<and> (downloadId s \<noteq> None \<longrightarrow> downloadId s' = downloadId s)
                  \<and> (downloadId s' \<noteq> downloadId s
                       \<longrightarrow> status s = Some InProgress \<and> downloadId s = None))))"
proof -
  have inv: "workerInv created w" using assms by (rule reachable_inv)
  then have "bindingInjective (downloadState w)" unfolding workerInv_def by simp
  moreover have "isDownloadEvent e
                   \<longrightarrow> bindsOnlyUnbound (downloadState w) (downloadState (step lc e w))"
    using bindsOnlyUnbound_download_event[OF inv] by simp
  ultimately show ?thesis
    unfolding bindingInjective_def bindsOnlyUnbound_def by simp
qed

theorem binding_immutable_injective_witness:
  "reachable asciiToLowerCase {5} progressExample
   \<and> boundTo progressExample 1 = Some 5
   \<and> boundTo (step asciiToLowerCase (DownloadCreated 6 (Some (ascii ''Foo.zip'')) None)
               progressExample) 1 = Some 5"
proof -
  have r: "reachable asciiToLowerCase {5} progressExample"
    unfolding progressExample_def
    by (intro reachable_step reachable_created reachable_initial) simp_all
  obtain s where s: "mapGet (downloadState progressExample) 1 = Some s" "downloadId s = Some 5"
    by (simp add: progressExample_state mapGet_def)
  have b: "boundTo progressExample 1 = Some 5"
    using s by (simp add: boundTo_def boundIn_def)
  have "isDownloadEvent (DownloadCreated 6 (Some (ascii ''Foo.zip'')) None)" by simp
  then obtain s' where
    "mapGet (downloadState (step asciiToLowerCase
        (DownloadCreated 6 (Some (ascii ''Foo.zip'')) None) progressExample)) 1 = Some s'"
    "downloadId s' = downloadId s"
    using binding_immutable_injective[OF r,
        of "DownloadCreated 6 (Some (ascii ''Foo.zip'')) None"] s
    by (metis option.distinct(1))
  then have "boundTo (step asciiToLowerCase (DownloadCreated 6 (Some (ascii ''Foo.zip'')) None)
                        progressExample) 1 = Some 5"
    using s(2) by (simp add: boundTo_def boundIn_def)
  then show ?thesis using r b by simp
qed

section \<open>A task without a usable title\<close>

lemma matchAll_nonempty:
  "matchAll m s \<noteq> [] \<Longrightarrow> \<exists>pre t r. s = pre @ t \<and> m t = Some r"
proof (induction s)
  case Nil
  then show ?case by (cases "m []") auto
next
  case (Cons c cs)
  show ?case
  proof (cases "m (c # cs)")
    case None
    then have "matchAll m cs \<noteq> []" using Cons.prems by simp
    then obtain pre t r where "cs = pre @ t" "m t = Some r" using Cons.IH by blast
    then have "c # cs = (c # pre) @ t \<and> m t = Some r" by simp
    then show ?thesis by blast
  next
    case (Some r)
    then have "c # cs = [] @ (c # cs) \<and> m (c # cs) = Some r" by simp
    then show ?thesis by blast
  qed
qed

lemma firstMatch_Some:
  "firstMatch m s = Some r \<Longrightarrow> \<exists>pre t. s = pre @ t \<and> m t = Some r"
proof (induction s)
  case Nil
  then show ?case by simp
next
  case (Cons c cs)
  show ?case
  proof (cases "m (c # cs)")
    case None
    then have "firstMatch m cs = Some r" using Cons.prems by simp
    then obtain pre t where "cs = pre @ t" "m t = Some r" using Cons.IH by blast
    then have "c # cs = (c # pre) @ t \<and> m t = Some r" by simp
    then show ?thesis by blast
  next
    case (Some r')
    then have "c # cs = [] @ (c # cs) \<and> m (c # cs) = Some r" using Cons.prems by simp
    then show ?thesis by blast
  qed
qed

lemma takeWhile_digit:
  assumes "takeWhile isDigit xs \<noteq> []"
  shows "\<exists>c \<in> set xs. isDigit c"
proof (cases xs)
  case Nil
  then show ?thesis using assms by simp
next
  case (Cons x xs')
  then have "isDigit x" using assms by (auto split: if_splits)
  then show ?thesis using Cons by auto
qed

lemma digit_behind_spaces:
  assumes "takeWhile isDigit (dropWhile isSpace xs) \<noteq> []"
  shows "\<exists>c \<in> set xs. isDigit c"
  using takeWhile_digit[OF assms] set_dropWhileD by fastforce

lemma japanesePatternAt_ordinal:
  "japanesePatternAt t = Some r \<Longrightarrow> 0x7B2C \<in> set t"
  by (cases t) (auto simp: japanesePatternAt_def Let_def split: list.splits if_splits)

lemma englishPatternFrom_digit:
  "englishPatternFrom ks t = Some r \<Longrightarrow> \<exists>c \<in> set t. isDigit c"
proof (induction ks)
  case Nil
  then show ?case by simp
next
  case (Cons k ks)
  show ?case
  proof (cases "ciPrefix k t \<and> takeWhile isDigit (dropWhile isSpace (drop (length k) t)) \<noteq> []")
    case True
    then obtain c where "c \<in> set (drop (length k) t)" "isDigit c"
      using digit_behind_spaces by blast
    then show ?thesis using in_set_dropD by fast
  next
    case False
    then have "englishPatternFrom ks t = Some r" using Cons.prems by (auto simp: Let_def)
    then show ?thesis by (rule Cons.IH)
  qed
qed

lemma trailingNumberAt_digit:
  "trailingNumberAt t = Some r \<Longrightarrow> \<exists>c \<in> set t. isDigit c"
  using digit_behind_spaces[of t]
  by (auto simp: trailingNumberAt_def Let_def split: if_splits)

lemma bracketNumberAt_digit:
  "bracketNumberAt t = Some r \<Longrightarrow> \<exists>c \<in> set t. isDigit c"
proof (cases t)
  case Nil
  assume "bracketNumberAt t = Some r"
  then show ?thesis using Nil by (simp add: bracketNumberAt_def)
next
  case (Cons c cs)
  assume "bracketNumberAt t = Some r"
  then have "takeWhile isDigit cs \<noteq> []"
    using Cons by (auto simp: bracketNumberAt_def Let_def split: list.splits if_splits)
  then show ?thesis using takeWhile_digit Cons by fastforce
qed

lemma dedupe_empty: "dedupe xs = [] \<longleftrightarrow> xs = []"
  by (cases xs) auto

lemma episode_numbers_need_digits:
  assumes "extractEpisodeNumbers s \<noteq> []"
  shows "\<exists>c \<in> set s. isDigit c \<or> c = 0x7B2C"
proof -
  let ?A = "matchAll japanesePatternAt s"
  let ?B = "matchAll englishPatternAt s"
  let ?C = "firstMatch trailingNumberAt s"
  let ?D = "matchAll bracketNumberAt s"
  let ?all = "map normalizeNumber ?A @ map parseInt ?B
              @ (case ?C of Some d \<Rightarrow> [parseInt d] | None \<Rightarrow> []) @ map parseInt ?D"
  have "extractEpisodeNumbers s = (if s = [] then [] else dedupe ?all)"
    by (simp add: extractEpisodeNumbers_def)
  then have "dedupe ?all \<noteq> []" using assms by (simp split: if_splits)
  then have "?all \<noteq> []" by (simp only: dedupe_empty not_False_eq_True)
  then have "?A \<noteq> [] \<or> ?B \<noteq> [] \<or> ?C \<noteq> None \<or> ?D \<noteq> []"
    by (cases ?C) simp_all
  then consider (a) "?A \<noteq> []" | (b) "?B \<noteq> []" | (c) "?C \<noteq> None" | (d) "?D \<noteq> []"
    by blast
  then have "\<exists>pre t. s = pre @ t \<and> (\<exists>c \<in> set t. isDigit c \<or> c = 0x7B2C)"
  proof cases
    case a
    then obtain pre t r where "s = pre @ t" "japanesePatternAt t = Some r"
      using matchAll_nonempty[of japanesePatternAt s] by blast
    then show ?thesis using japanesePatternAt_ordinal[of t r] by blast
  next
    case b
    then obtain pre t r where "s = pre @ t" "englishPatternAt t = Some r"
      using matchAll_nonempty[of englishPatternAt s] by blast
    then show ?thesis
      using englishPatternFrom_digit[of englishKeywords t r] unfolding englishPatternAt_def
      by blast
  next
    case c
    then obtain r where "?C = Some r" by auto
    then obtain pre t where "s = pre @ t" "trailingNumberAt t = Some r"
      using firstMatch_Some[of trailingNumberAt s r] by blast
    then show ?thesis using trailingNumberAt_digit[of t r] by blast
  next
    case d
    then obtain pre t r where "s = pre @ t" "bracketNumberAt t = Some r"
      using matchAll_nonempty[of bracketNumberAt s] by blast
    then show ?thesis using bracketNumberAt_digit[of t r] by blast
  qed
  then obtain pre t c where "s = pre @ t" "c \<in> set t" "isDigit c \<or> c = 0x7B2C" by blast
  then have "c \<in> set s \<and> (isDigit c \<or> c = 0x7B2C)" by simp
  then show ?thesis by blast
qed

lemma in_dropWhile: "c \<in> set xs \<Longrightarrow> \<not> P c \<Longrightarrow> c \<in> set (dropWhile P xs)"
  by (induction xs) auto

lemma trim_keeps: 
  assumes "c \<in> set xs" and "\<not> isSpace c"
  shows "c \<in> set (trim xs)"
proof -
  have "c \<in> set (rev (dropWhile isSpace xs))" using assms by (simp add: in_dropWhile)
  then have "c \<in> set (dropWhile isSpace (rev (dropWhile isSpace xs)))"
    using assms(2) by (rule in_dropWhile)
  then show ?thesis by (simp add: trim_def)
qed

lemma collapseSpaces_keeps:
  "c \<in> set xs \<Longrightarrow> \<not> isSpace c \<Longrightarrow> c \<in> set (collapseSpaces xs)"
proof (induction xs rule: collapseSpaces.induct)
  case 1
  then show ?case by simp
next
  case (2 x xs)
  show ?case
  proof (cases "isSpace x")
    case True
    then have "c \<in> set xs" using "2.prems" by auto
    then have "c \<in> set (dropWhile isSpace xs)" using "2.prems"(2) by (rule in_dropWhile)
    then show ?thesis using True "2.IH"(1) "2.prems"(2) by simp
  next
    case False
    then show ?thesis using "2.IH"(2) "2.prems" by auto
  qed
qed

lemma normalize_keeps:
  assumes "s \<noteq> []" and "c \<in> set (lc s)" and "\<not> isDecoration c" and "\<not> isSeparator c" and "\<not> isSpace c"
  shows "c \<in> set (normalizeForComparison lc s)"
proof -
  have "c \<in> set (filter (\<lambda>c. \<not> isDecoration c) (lc s))" using assms(2,3) by simp
  then have "c \<in> set (map (\<lambda>c. if isSeparator c then 32 else c)
                          (filter (\<lambda>c. \<not> isDecoration c) (lc s)))"
    using assms(4) by force
  then have "c \<in> set (trim (collapseSpaces (map (\<lambda>c. if isSeparator c then 32 else c)
                          (filter (\<lambda>c. \<not> isDecoration c) (lc s)))))"
    using assms(5) collapseSpaces_keeps trim_keeps by blast
  then show ?thesis
    using assms(1) by (simp add: normalizeForComparison_def)
qed


lemma ordinal_char_kept:
  "isDigit c \<or> c = 0x7B2C \<Longrightarrow> \<not> isDecoration c \<and> \<not> isSeparator c \<and> \<not> isSpace c"
  by (auto simp: isDigit_def isDecoration_def isSeparator_def isSpace_def)

lemma empty_norm_no_numbers:
  assumes "normalizeForComparison lc s = []"
    and "\<forall>c \<in> set s. isDigit c \<or> c = 0x7B2C \<longrightarrow> c \<in> set (lc s)"
  shows "extractEpisodeNumbers s = []"
proof (rule ccontr)
  assume a: "extractEpisodeNumbers s \<noteq> []"
  then obtain c where c: "c \<in> set s" "isDigit c \<or> c = 0x7B2C"
    using episode_numbers_need_digits by blast
  then have ne: "s \<noteq> []" by auto
  have "c \<in> set (lc s)" using assms(2) c by blast
  then have "c \<in> set (normalizeForComparison lc s)"
    using normalize_keeps[OF ne] ordinal_char_kept[OF c(2)] by blast
  then show False using assms(1) by simp
qed

lemma jsIncludes_empty: "jsIncludes s []"
  by (induction s) (simp_all add: startsWith_def)

lemma empty_title_score:
  assumes "normalizeForComparison lc (cleanTitle tabTitle) = []"
    and "extractEpisodeNumbers (cleanTitle tabTitle) = []"
  shows "calculateMatchScore lc filename tabTitle gid \<in> {Num 85, Num 98, Num 100}"
  using assms
  by (simp add: calculateMatchScore_def Let_def similarityRules_def jsIncludes_empty)

lemma dash_title_norm:
  "normalizeForComparison asciiToLowerCase (cleanTitle (Some (ascii ''- | Hitomi.la''))) = []"
  by (simp add: scorer_defs)

lemma dash_title_clean: "cleanTitle (Some (ascii ''- | Hitomi.la'')) = ascii ''-''"
  by (simp add: scorer_defs)

lemma dash_title_score:
  "calculateMatchScore asciiToLowerCase (ascii ''Foo.zip'') (Some (ascii ''- | Hitomi.la'')) None
     = Num 85"
  by (simp add: scorer_defs)

lemma absent_title_score:
  "calculateMatchScore asciiToLowerCase (ascii ''Foo.zip'') None None = Num 85"
  by (simp add: scorer_defs)

text \<open>
  C10. A title that is absent, or whose cleaned form is normalised to the empty string,
  scores 85, 98 or 100 against every file name and with every gallery id: at least 85, and
  so at least the threshold 30. A task in progress with such a title and no download id,
  alone in the registry, is therefore bound to whatever download is matched. The
  hypothesis on \<open>toLowerCase\<close> states the part of its behaviour that is used: it keeps the
  ASCII digits and the ordinal prefix U+7B2C of the cleaned title.
\<close>

theorem empty_label_scores_high:
  assumes "tabTitle = None
           \<or> (normalizeForComparison lc (cleanTitle tabTitle) = []
               \<and> (\<forall>c \<in> set (cleanTitle tabTitle).
                     isDigit c \<or> c = 0x7B2C \<longrightarrow> c \<in> set (lc (cleanTitle tabTitle))))"
  shows "calculateMatchScore lc filename tabTitle gid \<in> {Num 85, Num 98, Num 100}
       \<and> jsGreaterEq (calculateMatchScore lc filename tabTitle gid) (Num 85)
       \<and> jsGreaterEq (calculateMatchScore lc filename tabTitle gid) (Num 30)
       \<and> (status st = Some InProgress \<and> downloadId st = None \<and> title st = tabTitle
             \<and> galleryId st = gid
           \<longrightarrow> matchDownloadToTab lc dlId filename [(tabId, st)]
                 = (True, [(tabId, st\<lparr>downloadId := Some dlId\<rparr>)]))"
proof -
  have "normalizeForComparison lc (cleanTitle tabTitle) = []
        \<and> extractEpisodeNumbers (cleanTitle tabTitle) = []"
  proof (cases "tabTitle = None")
    case True
    then show ?thesis
      by (simp add: cleanTitle_def normalizeForComparison_def extractEpisodeNumbers_def)
  next
    case False
    then show ?thesis using assms empty_norm_no_numbers by blast
  qed
  then have sc: "calculateMatchScore lc filename tabTitle gid \<in> {Num 85, Num 98, Num 100}"
    using empty_title_score by blast
  then have ge: "jsGreaterEq (calculateMatchScore lc filename tabTitle gid) (Num 85)"
    and ge30: "jsGreaterEq (calculateMatchScore lc filename tabTitle gid) (Num 30)"
    by auto
  have "matchDownloadToTab lc dlId filename [(tabId, st)]
          = (True, [(tabId, st\<lparr>downloadId := Some dlId\<rparr>)])"
    if st: "status st = Some InProgress" "downloadId st = None" "title st = tabTitle"
      "galleryId st = gid"
  proof -
    have c: "candidates [(tabId, st)] = [(tabId, st)]"
      using st by (simp add: candidates_def isCandidate_def truthyId_def)
    have "matchDownloadToTab lc dlId filename [(tabId, st)]
            = (True, mapSet [(tabId, st)] tabId (st\<lparr>downloadId := Some dlId\<rparr>))"
    proof (rule matchDownloadToTab_unique)
      show "distinct (map fst [(tabId, st)])" by simp
      show "(tabId, st) \<in> set (candidates [(tabId, st)])" by (simp add: c)
      show "jsGreaterEq (scoreOf lc filename st) (Num 30)"
        using ge30 st by (simp add: scoreOf_def)
      show "\<forall>e \<in> set (candidates [(tabId, st)]). e \<noteq> (tabId, st)
              \<longrightarrow> \<not> jsGreaterEq (scoreOf lc filename (snd e)) (Num 30)"
        by (simp add: c)
    qed
    then show ?thesis by simp
  qed
  then show ?thesis using sc ge ge30 by blast
qed

theorem empty_label_scores_high_witness:
  "normalizeForComparison asciiToLowerCase (cleanTitle (Some (ascii ''- | Hitomi.la''))) = []
   \<and> calculateMatchScore asciiToLowerCase (ascii ''Foo.zip'') (Some (ascii ''- | Hitomi.la'')) None
       = Num 85
   \<and> jsGreaterEq
       (calculateMatchScore asciiToLowerCase (ascii ''Foo.zip'') (Some (ascii ''- | Hitomi.la''))
          None) (Num 30)
   \<and> calculateMatchScore asciiToLowerCase (ascii ''Foo.zip'') None None = Num 85"
proof -
  have h: "Some (ascii ''- | Hitomi.la'') = None
           \<or> (normalizeForComparison asciiToLowerCase (cleanTitle (Some (ascii ''- | Hitomi.la'')))
                = []
               \<and> (\<forall>c \<in> set (cleanTitle (Some (ascii ''- | Hitomi.la''))).
                     isDigit c \<or> c = 0x7B2C
                     \<longrightarrow> c \<in> set (asciiToLowerCase (cleanTitle (Some (ascii ''- | Hitomi.la''))))))"
proof -
    have "\<forall>c \<in> set (ascii ''-''). \<not> (isDigit c \<or> c = 0x7B2C)"
      by (simp add: ascii_def isDigit_def)
    then have "\<forall>c \<in> set (cleanTitle (Some (ascii ''- | Hitomi.la''))).
                 isDigit c \<or> c = 0x7B2C
                 \<longrightarrow> c \<in> set (asciiToLowerCase (cleanTitle (Some (ascii ''- | Hitomi.la''))))"
      by (simp add: dash_title_clean)
    then show ?thesis using dash_title_norm by blast
  qed
  have "jsGreaterEq
          (calculateMatchScore asciiToLowerCase (ascii ''Foo.zip'')
             (Some (ascii ''- | Hitomi.la'')) None) (Num 30)"
    using empty_label_scores_high[OF h, of "ascii ''Foo.zip''" None] by blast
  then show ?thesis
    by (simp add: dash_title_norm dash_title_score absent_title_score)
qed

end
